theory Spec2Isabelle
  imports Complex_Main "HOL-Library.Word" "HOL-Library.Log_Nat"
begin

unbundle bit_operations_syntax

section \<open>Single-precision arithmetic\<close>

text \<open>
  The source computes in C++ \<^verbatim>\<open>float\<close> (IEEE-754 binary32, round to nearest, ties to
  even). A finite \<^verbatim>\<open>float\<close> is modelled by the rational number it denotes, and every
  arithmetic operation of the source by the exact rational operation followed by \<open>fl\<close>,
  the rounding to the nearest binary32 value. Infinities and NaN are not modelled: all
  values computed from 8-bit pixels and table entries stay far below \<open>2 ^ 128\<close>, and the
  two divisions of the source have a divisor of at least 1.
\<close>

type_synonym float32 = rat
type_synonym u8 = "8 word"

text \<open>Round to the nearest integer, ties to the even one.\<close>

definition rne :: "rat \<Rightarrow> int" where
  "rne x = (let f = \<lfloor>x\<rfloor>; r = x - of_int f in
     if r < 1 / 2 then f else if 1 / 2 < r then f + 1 else if even f then f else f + 1)"

text \<open>The binary exponent \<open>e\<close> of a positive rational: \<open>2 ^ e \<le> x < 2 ^ (e + 1)\<close>.\<close>

definition bexp :: "rat \<Rightarrow> int" where
  "bexp x = (let (p, q) = quotient_of x; e0 = bitlen p - bitlen q in
     if 2 powi e0 \<le> x then e0 else e0 - 1)"

text \<open>
  The exponent of the last mantissa bit: 24 significant bits for a normal number, the
  fixed exponent \<open>-149\<close> in the subnormal range.
\<close>

definition ulp_exp :: "rat \<Rightarrow> int" where
  "ulp_exp x = max (bexp \<bar>x\<bar>) (- 126) - 23"

definition fl :: "rat \<Rightarrow> float32" where
  "fl x = of_int (rne (x / 2 powi ulp_exp x)) * 2 powi ulp_exp x"

definition fadd :: "float32 \<Rightarrow> float32 \<Rightarrow> float32" where
  "fadd a b = fl (a + b)"

definition fsub :: "float32 \<Rightarrow> float32 \<Rightarrow> float32" where
  "fsub a b = fl (a - b)"

definition fmul :: "float32 \<Rightarrow> float32 \<Rightarrow> float32" where
  "fmul a b = fl (a * b)"

definition fdiv :: "float32 \<Rightarrow> float32 \<Rightarrow> float32" where
  "fdiv a b = fl (a / b)"

text \<open>Conversion of a C++ \<^verbatim>\<open>int\<close> and of a \<^verbatim>\<open>uint8_t\<close> to \<^verbatim>\<open>float\<close>.\<close>

definition int_to_float :: "int \<Rightarrow> float32" where
  "int_to_float n = fl (of_int n)"

definition u8_to_float :: "u8 \<Rightarrow> float32" where
  "u8_to_float w = fl (of_int (uint w))"

section \<open>Helpers of the repository that the kernel file includes\<close>

text \<open>
  Modelled from the spec: \<^verbatim>\<open>clamp\<close> of dali/core/util.h is not part of the source at hand;
  the spec has the quality ``clamped to [1,99]'' and out-of-range coordinates ``clamp to
  the image edge''.
\<close>

definition clamp :: "int \<Rightarrow> int \<Rightarrow> int \<Rightarrow> int" where
  "clamp v lo hi = (if v < lo then lo else if hi < v then hi else v)"

text \<open>
  Modelled from the spec: \<^verbatim>\<open>ConvertSat<uint8_t>\<close> of dali/core/convert.h is not part of
  the source at hand; the spec has each result ``rounded and saturated'' to \<open>[0,255]\<close>.
  The spec does not say where a value exactly half way between two integers goes, so
  the rule is a parameter: away from zero (C's \<^verbatim>\<open>round\<close>) or to the even neighbour
  (CUDA's \<^verbatim>\<open>__float2int_rn\<close>).
\<close>

datatype rounding = HalfAway | HalfEven

fun round_to_int :: "rounding \<Rightarrow> float32 \<Rightarrow> int" where
  "round_to_int HalfAway x = (if 0 \<le> x then \<lfloor>x + 1 / 2\<rfloor> else - \<lfloor>- x + 1 / 2\<rfloor>)"
| "round_to_int HalfEven x = rne x"

definition ConvertSat :: "rounding \<Rightarrow> float32 \<Rightarrow> u8" where
  "ConvertSat rm x = word_of_int (clamp (round_to_int rm x) 0 255)"

section \<open>Quantization tables\<close>

definition GetQualityFactorScale :: "int \<Rightarrow> float32" where
  "GetQualityFactorScale quality0 =
     (let quality = clamp quality0 1 99 in
      if quality < 50 then fdiv 50 (int_to_float quality)
      else fsub 2 (fdiv (int_to_float (2 * quality)) 100))"

type_synonym mat8 = "u8 list list"

definition mat_get :: "mat8 \<Rightarrow> nat \<Rightarrow> nat \<Rightarrow> u8" where
  "mat_get t i j = t ! i ! j"

definition mat_set :: "mat8 \<Rightarrow> nat \<Rightarrow> nat \<Rightarrow> u8 \<Rightarrow> mat8" where
  "mat_set t i j v = t[i := (t ! i)[j := v]]"

definition luma_base :: mat8 where
  "luma_base =
    [[16, 11, 10, 16, 24, 40, 51, 61],
     [12, 12, 14, 19, 26, 58, 60, 55],
     [14, 13, 16, 24, 40, 57, 69, 56],
     [14, 17, 22, 29, 51, 87, 80, 62],
     [18, 22, 37, 56, 68, 109, 103, 77],
     [24, 35, 55, 64, 81, 104, 113, 92],
     [49, 64, 78, 87, 103, 121, 120, 101],
     [72, 92, 95, 98, 112, 100, 103, 99]]"

definition chroma_base :: mat8 where
  "chroma_base =
    [[17, 18, 24, 47, 99, 99, 99, 99],
     [18, 21, 26, 66, 99, 99, 99, 99],
     [24, 26, 56, 99, 99, 99, 99, 99],
     [47, 66, 99, 99, 99, 99, 99, 99],
     [99, 99, 99, 99, 99, 99, 99, 99],
     [99, 99, 99, 99, 99, 99, 99, 99],
     [99, 99, 99, 99, 99, 99, 99, 99],
     [99, 99, 99, 99, 99, 99, 99, 99]]"

text \<open>
  The two nested loops of the table builders: entry \<open>(i, j)\<close> is overwritten in place by
  the saturated product of the scale and its previous content.
\<close>

definition scale_table :: "rounding \<Rightarrow> float32 \<Rightarrow> mat8 \<Rightarrow> mat8" where
  "scale_table rm scale table =
     fold (\<lambda>i t. fold (\<lambda>j t.
        mat_set t i j (ConvertSat rm (fmul scale (u8_to_float (mat_get t i j)))))
        [0..<8] t) [0..<8] table"

definition GetLumaQuantizationTable :: "rounding \<Rightarrow> int \<Rightarrow> mat8" where
  "GetLumaQuantizationTable rm quality =
     scale_table rm (GetQualityFactorScale quality) luma_base"

definition GetChromaQuantizationTable :: "rounding \<Rightarrow> int \<Rightarrow> mat8" where
  "GetChromaQuantizationTable rm quality =
     scale_table rm (GetQualityFactorScale quality) chroma_base"

text \<open>
  The claim about the tables, read with exact arithmetic (the spec's words: multiply each
  base entry by \<open>s\<close>, round, saturate), and the same formula with every operation rounded
  to single precision, as the source computes it.
\<close>

definition spec_scale :: "int \<Rightarrow> rat" where
  "spec_scale q = (let c = clamp q 1 99 in
     if c < 50 then 50 / of_int c else 2 - 2 * of_int c / 100)"

definition spec_table :: "rounding \<Rightarrow> mat8 \<Rightarrow> int \<Rightarrow> mat8" where
  "spec_table rm base q = map (map (\<lambda>e. ConvertSat rm (spec_scale q * of_int (uint e)))) base"

definition single_scale :: "int \<Rightarrow> float32" where
  "single_scale q = (let c = clamp q 1 99 in
     if c < 50 then fl (50 / of_int c) else fl (2 - fl (of_int (2 * c) / 100)))"

section \<open>Sample descriptor\<close>

type_synonym ivec2 = "int \<times> int"
type_synonym 'a vec3 = "'a \<times> 'a \<times> 'a"

text \<open>
  A pixel buffer is the memory behind a pointer, indexed by the element offset from it.
  The descriptor's \<^verbatim>\<open>in\<close> and \<^verbatim>\<open>out\<close> pointers are modelled by the content of the two
  buffers (the spec has them distinct); vectors are pairs \<open>(x, y)\<close>.
\<close>

type_synonym buffer = "int \<Rightarrow> u8"

record SampleDesc =
  in_data :: buffer
  out_data :: buffer
  img_size :: ivec2
  img_strides :: ivec2
  luma_Q_table :: mat8
  chroma_Q_table :: mat8

text \<open>
  A descriptor whose table members are left to their default member initialisers; the
  four other members have none and are whatever the caller stores.
\<close>

definition SampleDesc_default ::
  "rounding \<Rightarrow> buffer \<Rightarrow> buffer \<Rightarrow> ivec2 \<Rightarrow> ivec2 \<Rightarrow> SampleDesc" where
  "SampleDesc_default rm i out sz st =
     \<lparr>in_data = i, out_data = out, img_size = sz, img_strides = st,
      luma_Q_table = GetLumaQuantizationTable rm 95,
      chroma_Q_table = GetChromaQuantizationTable rm 95\<rparr>"

section \<open>Colour transforms\<close>

definition rgb_to_y :: "rounding \<Rightarrow> u8 vec3 \<Rightarrow> u8" where
  "rgb_to_y rm rgb = (case rgb of (x, y, z) \<Rightarrow>
     ConvertSat rm
       (fadd (fadd (fmul (fl (299 / 1000)) (u8_to_float x))
                   (fmul (fl (587 / 1000)) (u8_to_float y)))
             (fmul (fl (114 / 1000)) (u8_to_float z))))"

definition rgb_to_cb :: "rounding \<Rightarrow> u8 vec3 \<Rightarrow> u8" where
  "rgb_to_cb rm rgb = (case rgb of (x, y, z) \<Rightarrow>
     ConvertSat rm
       (fadd (fadd (fsub (fmul (- fl (16873589 / 100000000)) (u8_to_float x))
                         (fmul (fl (33126411 / 100000000)) (u8_to_float y)))
                   (fmul (fl (1 / 2)) (u8_to_float z)))
             128))"

definition rgb_to_cr :: "rounding \<Rightarrow> u8 vec3 \<Rightarrow> u8" where
  "rgb_to_cr rm rgb = (case rgb of (x, y, z) \<Rightarrow>
     ConvertSat rm
       (fadd (fsub (fsub (fmul (fl (1 / 2)) (u8_to_float x))
                         (fmul (fl (41868759 / 100000000)) (u8_to_float y)))
                   (fmul (fl (8131241 / 100000000)) (u8_to_float z)))
             128))"

definition rgb_to_cb_cr :: "rounding \<Rightarrow> u8 vec3 \<Rightarrow> u8 \<times> u8" where
  "rgb_to_cb_cr rm rgb = (rgb_to_cb rm rgb, rgb_to_cr rm rgb)"

text \<open>
  The element-wise averages. The 8-bit operands are promoted to \<^verbatim>\<open>int\<close>, so the sum is
  exact; it is converted to \<^verbatim>\<open>float\<close> for the product.
\<close>

definition avg4_elem :: "rounding \<Rightarrow> u8 \<Rightarrow> u8 \<Rightarrow> u8 \<Rightarrow> u8 \<Rightarrow> u8" where
  "avg4_elem rm a b c d =
     ConvertSat rm (fmul (int_to_float (uint a + uint b + uint c + uint d)) (fl (1 / 4)))"

definition avg4 :: "rounding \<Rightarrow> u8 vec3 \<Rightarrow> u8 vec3 \<Rightarrow> u8 vec3 \<Rightarrow> u8 vec3 \<Rightarrow> u8 vec3" where
  "avg4 rm a b c d =
     (case a of (a0, a1, a2) \<Rightarrow> case b of (b0, b1, b2) \<Rightarrow>
      case c of (c0, c1, c2) \<Rightarrow> case d of (d0, d1, d2) \<Rightarrow>
        (avg4_elem rm a0 b0 c0 d0, avg4_elem rm a1 b1 c1 d1, avg4_elem rm a2 b2 c2 d2))"

definition avg2_elem :: "rounding \<Rightarrow> u8 \<Rightarrow> u8 \<Rightarrow> u8" where
  "avg2_elem rm a b = ConvertSat rm (fmul (int_to_float (uint a + uint b)) (fl (1 / 2)))"

definition avg2 :: "rounding \<Rightarrow> u8 vec3 \<Rightarrow> u8 vec3 \<Rightarrow> u8 vec3" where
  "avg2 rm a b =
     (case a of (a0, a1, a2) \<Rightarrow> case b of (b0, b1, b2) \<Rightarrow>
        (avg2_elem rm a0 b0, avg2_elem rm a1 b1, avg2_elem rm a2 b2))"

definition ycbcr_to_rgb :: "rounding \<Rightarrow> u8 vec3 \<Rightarrow> u8 vec3" where
  "ycbcr_to_rgb rm ycbcr = (case ycbcr of (yy, cbb, crr) \<Rightarrow>
     let y = u8_to_float yy;
         cb = fsub (u8_to_float cbb) 128;
         cr = fsub (u8_to_float crr) 128
     in (ConvertSat rm (fadd y (fmul (fl (1402 / 1000)) cr)),
         ConvertSat rm (fsub (fsub y (fmul (fl (34413629 / 100000000)) cb))
                             (fmul (fl (71413629 / 100000000)) cr)),
         ConvertSat rm (fadd y (fmul (fl (1772 / 1000)) cb))))"

section \<open>Surfaces, sampling and the subsampled pixel group\<close>

text \<open>
  Modelled from the spec: \<^verbatim>\<open>Surface2D\<close> of dali/kernels/imgproc/surface.h is not part of
  the source at hand. The spec has a sample's buffer described by its pixel dimensions
  and its row and element strides; the element of channel \<open>c\<close> at \<open>(x, y)\<close> is at offset
  \<open>x * strides.x + y * strides.y + c * channel_stride\<close>.
\<close>

record Surface2D =
  surf_data :: buffer
  surf_size :: ivec2
  surf_channels :: int
  surf_strides :: ivec2
  surf_channel_stride :: int

definition surf_offset :: "Surface2D \<Rightarrow> ivec2 \<Rightarrow> int" where
  "surf_offset surf pos = fst pos * fst (surf_strides surf) + snd pos * snd (surf_strides surf)"

definition surf_at :: "Surface2D \<Rightarrow> ivec2 \<Rightarrow> int \<Rightarrow> u8" where
  "surf_at surf pos c = surf_data surf (surf_offset surf pos + c * surf_channel_stride surf)"

text \<open>
  Modelled from the spec: the nearest-neighbour sampler of dali/kernels/imgproc/sampler.h
  with \<^verbatim>\<open>BorderClamp\<close> is not part of the source at hand. The spec has ``clamped-border
  nearest-neighbor addressing (out-of-range coordinates clamp to the image edge)''; the
  three channels of the pixel are read.
\<close>

definition sampler_nn_clamp :: "Surface2D \<Rightarrow> ivec2 \<Rightarrow> u8 vec3" where
  "sampler_nn_clamp surf pos =
     (let p = (clamp (fst pos) 0 (fst (surf_size surf) - 1),
               clamp (snd pos) 0 (snd (surf_size surf) - 1))
      in (surf_at surf p 0, surf_at surf p 1, surf_at surf p 2))"

record YCbCrSubsampled =
  luma :: "u8 list"
  cb :: u8
  cr :: u8

definition kLumaLen :: "bool \<Rightarrow> bool \<Rightarrow> nat" where
  "kLumaLen horz_subsample vert_subsample =
     (1 + of_bool horz_subsample) * (1 + of_bool vert_subsample)"

text \<open>
  The coordinates of a pixel group are 32-bit \<^verbatim>\<open>int\<close>s: \<^verbatim>\<open>x + 1\<close> and \<^verbatim>\<open>y + 1\<close> are
  additions of that type, which wrap around past the largest value.
\<close>

definition add_i32 :: "int \<Rightarrow> int \<Rightarrow> int" where
  "add_i32 a b = sint (word_of_int a + word_of_int b :: 32 word)"

definition rgb_to_ycbcr_subsampled ::
  "bool \<Rightarrow> bool \<Rightarrow> rounding \<Rightarrow> ivec2 \<Rightarrow> Surface2D \<Rightarrow> YCbCrSubsampled" where
  "rgb_to_ycbcr_subsampled horz_subsample vert_subsample rm offset inp =
     (let y = snd offset; x = fst offset;
          rgb0 = sampler_nn_clamp inp (x, y)
      in if horz_subsample \<and> vert_subsample then
           let rgb1 = sampler_nn_clamp inp (add_i32 x 1, y);
               rgb2 = sampler_nn_clamp inp (x, add_i32 y 1);
               rgb3 = sampler_nn_clamp inp (add_i32 x 1, add_i32 y 1);
               avg_rgb = avg4 rm rgb0 rgb1 rgb2 rgb3;
               cbcr = rgb_to_cb_cr rm avg_rgb
           in \<lparr>luma = [rgb_to_y rm rgb0, rgb_to_y rm rgb1, rgb_to_y rm rgb2, rgb_to_y rm rgb3],
               cb = fst cbcr, cr = snd cbcr\<rparr>
         else if horz_subsample then
           let rgb1 = sampler_nn_clamp inp (add_i32 x 1, y);
               avg_rgb = avg2 rm rgb0 rgb1;
               cbcr = rgb_to_cb_cr rm avg_rgb
           in \<lparr>luma = [rgb_to_y rm rgb0, rgb_to_y rm rgb1], cb = fst cbcr, cr = snd cbcr\<rparr>
         else if vert_subsample then
           let rgb1 = sampler_nn_clamp inp (x, add_i32 y 1);
               avg_rgb = avg2 rm rgb0 rgb1;
               cbcr = rgb_to_cb_cr rm avg_rgb
           in \<lparr>luma = [rgb_to_y rm rgb0, rgb_to_y rm rgb1], cb = fst cbcr, cr = snd cbcr\<rparr>
         else
           let cbcr = rgb_to_cb_cr rm rgb0
           in \<lparr>luma = [rgb_to_y rm rgb0], cb = fst cbcr, cr = snd cbcr\<rparr>)"

text \<open>
  \<^verbatim>\<open>write_vec\<close> stores the three elements of \<open>v\<close> at consecutive offsets from the address
  of the pixel, and only if the position is inside the surface.
\<close>

definition write_vec :: "Surface2D \<Rightarrow> ivec2 \<Rightarrow> u8 vec3 \<Rightarrow> Surface2D" where
  "write_vec surf pos v =
     (if 0 \<le> fst pos \<and> 0 \<le> snd pos \<and> fst pos < fst (surf_size surf) \<and> snd pos < snd (surf_size surf)
      then case v of (v0, v1, v2) \<Rightarrow>
        let pixel = surf_offset surf pos
        in surf\<lparr>surf_data := (surf_data surf)(pixel := v0, pixel + 1 := v1, pixel + 2 := v2)\<rparr>
      else surf)"

definition ycbcr_to_rgb_subsampled ::
  "bool \<Rightarrow> bool \<Rightarrow> rounding \<Rightarrow> ivec2 \<Rightarrow> Surface2D \<Rightarrow> YCbCrSubsampled \<Rightarrow> Surface2D" where
  "ycbcr_to_rgb_subsampled horz_subsample vert_subsample rm offset out ycbcr =
     (let y = snd offset; x = fst offset;
          out0 = write_vec out (x, y) (ycbcr_to_rgb rm (luma ycbcr ! 0, cb ycbcr, cr ycbcr))
      in if horz_subsample \<and> vert_subsample then
           let out1 = write_vec out0 (x + 1, y) (ycbcr_to_rgb rm (luma ycbcr ! 1, cb ycbcr, cr ycbcr));
               out2 = write_vec out1 (x, y + 1) (ycbcr_to_rgb rm (luma ycbcr ! 2, cb ycbcr, cr ycbcr))
           in write_vec out2 (x + 1, y + 1) (ycbcr_to_rgb rm (luma ycbcr ! 3, cb ycbcr, cr ycbcr))
         else if horz_subsample then
           write_vec out0 (x + 1, y) (ycbcr_to_rgb rm (luma ycbcr ! 1, cb ycbcr, cr ycbcr))
         else if vert_subsample then
           write_vec out0 (x, y + 1) (ycbcr_to_rgb rm (luma ycbcr ! 1, cb ycbcr, cr ycbcr))
         else out0)"

section \<open>Quantization of a coefficient\<close>

text \<open>
  \<^verbatim>\<open>roundf\<close> rounds to the nearest integer, half way cases away from zero;
  \<^verbatim>\<open>__frcp_rn\<close> is the correctly rounded single-precision reciprocal.
\<close>

definition roundf :: "float32 \<Rightarrow> float32" where
  "roundf x = of_int (round_to_int HalfAway x)"

definition frcp_rn :: "float32 \<Rightarrow> float32" where
  "frcp_rn x = fl (1 / x)"

definition quantize :: "float32 \<Rightarrow> float32 \<Rightarrow> float32" where
  "quantize v Q_coeff0 =
     (let Q_coeff = (if Q_coeff0 < 1 then 1 else Q_coeff0)
      in fmul Q_coeff (roundf (fmul v (frcp_rn Q_coeff))))"

text \<open>The claim about \<^verbatim>\<open>quantize\<close>, read with exact arithmetic.\<close>

definition spec_quantize :: "rounding \<Rightarrow> rat \<Rightarrow> rat \<Rightarrow> rat" where
  "spec_quantize rm v Q =
     (let Q' = (if 1 \<le> Q then Q else 1) in Q' * of_int (round_to_int rm (v / Q')))"

section \<open>The compression-distortion kernel\<close>

text \<open>
  Modelled from the spec: \<^verbatim>\<open>BlockDesc\<close> of dali/kernels/common/block_setup.h is not part
  of the source at hand; the spec has the descriptor as the owning sample index and the
  start and end coordinates of a rectangular region.
\<close>

record BlockDesc =
  sample_idx :: nat
  blk_start :: ivec2
  blk_end :: ivec2

text \<open>
  Modelled from the spec: \<^verbatim>\<open>align_up\<close> of dali/core/util.h is not part of the source at
  hand; the spec has the region ``aligned outward to the nearest 8-pixel boundary''.
\<close>

definition align_up :: "int \<Rightarrow> int \<Rightarrow> int" where
  "align_up v a = (v + a - 1) div a * a"

text \<open>
  Modelled from the spec: the 1-D 8-point transforms \<^verbatim>\<open>dct_fwd_8x8_1d\<close> and
  \<^verbatim>\<open>dct_inv_8x8_1d\<close> of dali/kernels/imgproc/jpeg/dct_8x8_gpu.cuh are not part of the
  source at hand; the spec treats them as an external primitive. They are parameters of
  the kernel: a transform maps the eight values of a slice (indexed \<open>0..7\<close>) to the eight
  values written back in place.
\<close>

type_synonym dct1d = "(int \<Rightarrow> float32) \<Rightarrow> int \<Rightarrow> float32"

record dct_prims =
  dct_fwd_8x8_1d :: dct1d
  dct_inv_8x8_1d :: dct1d

text \<open>The shared array \<^verbatim>\<open>flat_blocks[total_blocks][8][9]\<close>, indexed (block, row, column).\<close>

type_synonym scratch = "int \<times> int \<times> int \<Rightarrow> float32"

definition vert_chroma_blocks :: int where
  "vert_chroma_blocks = 2"

definition horz_chroma_blocks :: int where
  "horz_chroma_blocks = 4"

definition num_pages :: "bool \<Rightarrow> bool \<Rightarrow> int" where
  "num_pages horz_subsample vert_subsample =
     (if horz_subsample then if vert_subsample then 2 else 3 else 4)"

definition vert_luma_blocks :: "bool \<Rightarrow> int" where
  "vert_luma_blocks vert_subsample = push_bit (of_bool vert_subsample) vert_chroma_blocks"

definition horz_luma_blocks :: "bool \<Rightarrow> int" where
  "horz_luma_blocks horz_subsample = push_bit (of_bool horz_subsample) horz_chroma_blocks"

definition chroma_page :: int where
  "chroma_page = vert_chroma_blocks * horz_chroma_blocks"

definition chroma_blocks :: "bool \<Rightarrow> bool \<Rightarrow> int" where
  "chroma_blocks hs vs = chroma_page * num_pages hs vs"

definition luma_page :: "bool \<Rightarrow> bool \<Rightarrow> int" where
  "luma_page hs vs = vert_luma_blocks vs * horz_luma_blocks hs"

definition luma_blocks :: "bool \<Rightarrow> bool \<Rightarrow> int" where
  "luma_blocks hs vs = luma_page hs vs * num_pages hs vs"

definition total_blocks :: "bool \<Rightarrow> bool \<Rightarrow> int" where
  "total_blocks hs vs = 2 * chroma_blocks hs vs + luma_blocks hs vs"

text \<open>
  The values a thread derives from its index \<open>t = (threadIdx.x, threadIdx.y)\<close>: its
  position inside an 8x8 block and the block it works on.
\<close>

definition chroma_x :: "ivec2 \<Rightarrow> int" where
  "chroma_x t = fst t AND 7"

definition chroma_y :: "ivec2 \<Rightarrow> int" where
  "chroma_y t = snd t AND 7"

definition chroma_block_idx :: "ivec2 \<Rightarrow> int" where
  "chroma_block_idx t = drop_bit 3 (snd t) * horz_chroma_blocks + drop_bit 3 (fst t)"

definition luma_x :: "bool \<Rightarrow> ivec2 \<Rightarrow> int" where
  "luma_x hs t = push_bit (of_bool hs) (fst t) AND 7"

definition luma_y :: "bool \<Rightarrow> ivec2 \<Rightarrow> int" where
  "luma_y vs t = push_bit (of_bool vs) (snd t) AND 7"

definition luma_block_idx :: "bool \<Rightarrow> bool \<Rightarrow> ivec2 \<Rightarrow> int" where
  "luma_block_idx hs vs t =
     drop_bit 3 (push_bit (of_bool vs) (snd t)) * horz_luma_blocks hs
     + drop_bit 3 (push_bit (of_bool hs) (fst t))"

text \<open>The cells \<^verbatim>\<open>cb[page * chroma_page]\<close>, \<^verbatim>\<open>cr[...]\<close>, \<^verbatim>\<open>luma[page * luma_page]\<close> of a thread.\<close>

definition cb_cell :: "ivec2 \<Rightarrow> int \<Rightarrow> int \<times> int \<times> int" where
  "cb_cell t page = (chroma_block_idx t + page * chroma_page, chroma_y t, chroma_x t)"

definition cr_cell :: "bool \<Rightarrow> bool \<Rightarrow> ivec2 \<Rightarrow> int \<Rightarrow> int \<times> int \<times> int" where
  "cr_cell hs vs t page =
     (chroma_blocks hs vs + chroma_block_idx t + page * chroma_page, chroma_y t, chroma_x t)"

definition luma_cell :: "bool \<Rightarrow> bool \<Rightarrow> ivec2 \<Rightarrow> int \<Rightarrow> int \<Rightarrow> int \<Rightarrow> int \<times> int \<times> int" where
  "luma_cell hs vs t page i j =
     (chroma_blocks hs vs * 2 + luma_block_idx hs vs t + page * luma_page hs vs,
      luma_y vs t + i, luma_x hs t + j)"

text \<open>
  The loop \<^verbatim>\<open>for (i = 0, k = 0; i < vert_subsample+1; i++) for (j = 0; j < horz_subsample+1; j++, k++)\<close>:
  the triples \<open>(i, j, k)\<close> in the order the loop visits them.
\<close>

definition sub_positions :: "bool \<Rightarrow> bool \<Rightarrow> (int \<times> int \<times> nat) list" where
  "sub_positions hs vs =
     concat (map (\<lambda>i. map (\<lambda>j. (int i, int j, i * (1 + of_bool hs) + j)) [0..<1 + of_bool hs])
                 [0..<1 + of_bool vs])"

text \<open>
  A counting loop \<^verbatim>\<open>for (v = first; v < bound; v += step)\<close>: the values of \<open>v\<close> for which
  the body runs. The steps of the kernel are \<^verbatim>\<open>blockDim.x\<close>, the block size and a positive
  constant; a CUDA launch has \<^verbatim>\<open>blockDim.x >= 1\<close> and \<^verbatim>\<open>blockDim.y >= 1\<close>, so the step
  is positive.
\<close>

function loop_from :: "int \<Rightarrow> int \<Rightarrow> int \<Rightarrow> int list" where
  "loop_from first bound step =
     (if first < bound \<and> 0 < step then first # loop_from (first + step) bound step else [])"
  by pat_completeness auto
termination
  by (relation "measure (\<lambda>(first, bound, step). nat (bound - first))") auto

text \<open>The threads of a CUDA block and the pages of a tile.\<close>

definition threads :: "ivec2 \<Rightarrow> ivec2 list" where
  "threads blockDim =
     concat (map (\<lambda>ty. map (\<lambda>tx. (tx, ty)) [0..fst blockDim - 1]) [0..snd blockDim - 1])"

definition pages :: "bool \<Rightarrow> bool \<Rightarrow> int list" where
  "pages hs vs = [0..num_pages hs vs - 1]"

definition group_offset :: "bool \<Rightarrow> bool \<Rightarrow> ivec2 \<Rightarrow> ivec2 \<Rightarrow> int \<Rightarrow> ivec2" where
  "group_offset hs vs blk_pos t page =
     (let pos_x = fst blk_pos + fst t;
          pos_y = snd blk_pos + snd t + page * vert_chroma_blocks * 8;
          y = push_bit (of_bool vs) pos_y;
          x = push_bit (of_bool hs) pos_x
      in (x, y))"

text \<open>Loading a pixel group into the scratch blocks, shifted by \<open>-128\<close>.\<close>

definition load_page ::
  "bool \<Rightarrow> bool \<Rightarrow> rounding \<Rightarrow> Surface2D \<Rightarrow> ivec2 \<Rightarrow> ivec2 \<Rightarrow> int \<Rightarrow> scratch \<Rightarrow> scratch" where
  "load_page hs vs rm inp blk_pos t page S =
     (let offset = group_offset hs vs blk_pos t page;
          ycbcr = rgb_to_ycbcr_subsampled hs vs rm offset inp;
          S1 = S(cb_cell t page := fsub (u8_to_float (cb ycbcr)) 128);
          S2 = S1(cr_cell hs vs t page := fsub (u8_to_float (cr ycbcr)) 128)
      in fold (\<lambda>(i, j, k) S.
                 S(luma_cell hs vs t page i j := fsub (u8_to_float (luma ycbcr ! k)) 128))
           (sub_positions hs vs) S2)"

definition phase_load ::
  "bool \<Rightarrow> bool \<Rightarrow> rounding \<Rightarrow> Surface2D \<Rightarrow> ivec2 \<Rightarrow> ivec2 \<Rightarrow> scratch \<Rightarrow> scratch" where
  "phase_load hs vs rm inp blockDim blk_pos S =
     fold (\<lambda>t S. fold (\<lambda>page S. load_page hs vs rm inp blk_pos t page S) (pages hs vs) S)
       (threads blockDim) S"

text \<open>
  One 1-D transform in place: on the row \<open>slice_id & 7\<close> of block \<open>slice_id >> 3\<close>
  (element stride 1), or on the column \<open>slice_id & 7\<close> of that block (element stride 9).
\<close>

definition dct_row :: "dct1d \<Rightarrow> int \<Rightarrow> scratch \<Rightarrow> scratch" where
  "dct_row f slice_id S =
     (let b = drop_bit 3 slice_id; r = slice_id AND 7
      in (\<lambda>(b', r', c'). if b' = b \<and> r' = r \<and> 0 \<le> c' \<and> c' < 8
                          then f (\<lambda>k. S (b, r, k)) c' else S (b', r', c')))"

definition dct_col :: "dct1d \<Rightarrow> int \<Rightarrow> scratch \<Rightarrow> scratch" where
  "dct_col f slice_id S =
     (let b = drop_bit 3 slice_id; c = slice_id AND 7
      in (\<lambda>(b', r', c'). if b' = b \<and> c' = c \<and> 0 \<le> r' \<and> r' < 8
                          then f (\<lambda>k. S (b, k, c)) r' else S (b', r', c')))"

definition tid :: "ivec2 \<Rightarrow> ivec2 \<Rightarrow> int" where
  "tid blockDim t = fst t + fst blockDim * snd t"

definition block_size :: "ivec2 \<Rightarrow> int" where
  "block_size blockDim = fst blockDim * snd blockDim"

definition num_dct_slices :: "bool \<Rightarrow> bool \<Rightarrow> int" where
  "num_dct_slices hs vs = total_blocks hs vs * 8"

definition phase_dct ::
  "(int \<Rightarrow> scratch \<Rightarrow> scratch) \<Rightarrow> bool \<Rightarrow> bool \<Rightarrow> ivec2 \<Rightarrow> scratch \<Rightarrow> scratch" where
  "phase_dct pass hs vs blockDim S =
     fold (\<lambda>t S. fold pass
                   (loop_from (tid blockDim t) (num_dct_slices hs vs) (block_size blockDim)) S)
       (threads blockDim) S"

text \<open>Quantization of the coefficients a thread owns, page by page.\<close>

definition chroma_q :: "SampleDesc \<Rightarrow> ivec2 \<Rightarrow> float32" where
  "chroma_q sample t =
     u8_to_float (mat_get (chroma_Q_table sample) (nat (chroma_y t)) (nat (chroma_x t)))"

definition luma_q :: "bool \<Rightarrow> bool \<Rightarrow> SampleDesc \<Rightarrow> ivec2 \<Rightarrow> int \<Rightarrow> int \<Rightarrow> float32" where
  "luma_q hs vs sample t i j =
     u8_to_float (mat_get (luma_Q_table sample) (nat (luma_y vs t + i)) (nat (luma_x hs t + j)))"

definition quantize_page ::
  "bool \<Rightarrow> bool \<Rightarrow> SampleDesc \<Rightarrow> ivec2 \<Rightarrow> int \<Rightarrow> scratch \<Rightarrow> scratch" where
  "quantize_page hs vs sample t page S =
     (let S1 = S(cb_cell t page := quantize (S (cb_cell t page)) (chroma_q sample t));
          S2 = S1(cr_cell hs vs t page := quantize (S1 (cr_cell hs vs t page)) (chroma_q sample t))
      in fold (\<lambda>(i, j, k) S.
                 S(luma_cell hs vs t page i j :=
                     quantize (S (luma_cell hs vs t page i j)) (luma_q hs vs sample t i j)))
           (sub_positions hs vs) S2)"

definition phase_quantize ::
  "bool \<Rightarrow> bool \<Rightarrow> SampleDesc \<Rightarrow> ivec2 \<Rightarrow> scratch \<Rightarrow> scratch" where
  "phase_quantize hs vs sample blockDim S =
     fold (\<lambda>t S. fold (\<lambda>page S. quantize_page hs vs sample t page S) (pages hs vs) S)
       (threads blockDim) S"

text \<open>
  Writing a pixel group back: skipped when its anchor is at or beyond the image size in
  a coordinate, otherwise shifted by \<open>+128\<close>, saturated and converted to RGB.
\<close>

definition write_page ::
  "bool \<Rightarrow> bool \<Rightarrow> rounding \<Rightarrow> SampleDesc \<Rightarrow> ivec2 \<Rightarrow> scratch \<Rightarrow> ivec2 \<Rightarrow> int
     \<Rightarrow> Surface2D \<Rightarrow> Surface2D" where
  "write_page hs vs rm sample blk_pos S t page out =
     (let offset = group_offset hs vs blk_pos t page
      in if fst (img_size sample) \<le> fst offset \<or> snd (img_size sample) \<le> snd offset then out
         else
           let out_ycbcr =
                 \<lparr>luma = map (\<lambda>(i, j, k). ConvertSat rm (fadd (S (luma_cell hs vs t page i j)) 128))
                           (sub_positions hs vs),
                  cb = ConvertSat rm (fadd (S (cb_cell t page)) 128),
                  cr = ConvertSat rm (fadd (S (cr_cell hs vs t page)) 128)\<rparr>
           in ycbcr_to_rgb_subsampled hs vs rm offset out out_ycbcr)"

definition phase_write ::
  "bool \<Rightarrow> bool \<Rightarrow> rounding \<Rightarrow> SampleDesc \<Rightarrow> ivec2 \<Rightarrow> ivec2 \<Rightarrow> scratch
     \<Rightarrow> Surface2D \<Rightarrow> Surface2D" where
  "phase_write hs vs rm sample blockDim blk_pos S out =
     fold (\<lambda>t out. fold (\<lambda>page out. write_page hs vs rm sample blk_pos S t page out)
                      (pages hs vs) out)
       (threads blockDim) out"

text \<open>
  The four transform passes between the barriers. Threads of a phase are run one after
  the other: between two barriers no two threads touch the same cell.
\<close>

definition phase_transforms ::
  "bool \<Rightarrow> bool \<Rightarrow> bool \<Rightarrow> dct_prims \<Rightarrow> SampleDesc \<Rightarrow> ivec2 \<Rightarrow> scratch \<Rightarrow> scratch" where
  "phase_transforms hs vs quantization dct sample blockDim S1 =
     (let S2 = phase_dct (dct_row (dct_fwd_8x8_1d dct)) hs vs blockDim S1;
          S3 = phase_dct (dct_col (dct_fwd_8x8_1d dct)) hs vs blockDim S2;
          S4 = (if quantization then phase_quantize hs vs sample blockDim S3 else S3);
          S5 = phase_dct (dct_col (dct_inv_8x8_1d dct)) hs vs blockDim S4
      in phase_dct (dct_row (dct_inv_8x8_1d dct)) hs vs blockDim S5)"

text \<open>One iteration of the two outer loops, at the tile position \<open>blk_pos\<close>.\<close>

definition tile_iteration ::
  "bool \<Rightarrow> bool \<Rightarrow> bool \<Rightarrow> rounding \<Rightarrow> dct_prims \<Rightarrow> SampleDesc \<Rightarrow> Surface2D \<Rightarrow> ivec2
     \<Rightarrow> ivec2 \<Rightarrow> scratch \<times> Surface2D \<Rightarrow> scratch \<times> Surface2D" where
  "tile_iteration hs vs quantization rm dct sample inp blockDim blk_pos st =
     (let S1 = phase_load hs vs rm inp blockDim blk_pos (fst st);
          S6 = phase_transforms hs vs quantization dct sample blockDim S1
      in (S6, phase_write hs vs rm sample blockDim blk_pos S6 (snd st)))"

text \<open>The surfaces \<^verbatim>\<open>{sample.in, sample.size, 3, sample.strides, 1}\<close> and the one over \<^verbatim>\<open>sample.out\<close>.\<close>

definition in_surface :: "SampleDesc \<Rightarrow> Surface2D" where
  "in_surface sample =
     \<lparr>surf_data = in_data sample, surf_size = img_size sample, surf_channels = 3,
      surf_strides = img_strides sample, surf_channel_stride = 1\<rparr>"

definition out_surface :: "SampleDesc \<Rightarrow> Surface2D" where
  "out_surface sample =
     \<lparr>surf_data = out_data sample, surf_size = img_size sample, surf_channels = 3,
      surf_strides = img_strides sample, surf_channel_stride = 1\<rparr>"

text \<open>
  The kernel body for one CUDA block: \<open>sample\<close> is \<^verbatim>\<open>samples[block.sample_idx]\<close> and
  \<open>block\<close> is \<^verbatim>\<open>blocks[blockIdx.x]\<close>; \<open>flat_blocks\<close> is the content of the shared array on
  entry. The result is the shared array on exit and the output surface.
\<close>

definition JpegCompressionDistortion ::
  "bool \<Rightarrow> bool \<Rightarrow> bool \<Rightarrow> rounding \<Rightarrow> dct_prims \<Rightarrow> ivec2 \<Rightarrow> SampleDesc \<Rightarrow> BlockDesc
     \<Rightarrow> scratch \<Rightarrow> scratch \<times> Surface2D" where
  "JpegCompressionDistortion horz_subsample vert_subsample quantization rm dct blockDim
       sample block flat_blocks =
     (let aligned_start_x = fst (blk_start block) AND (- 8);
          aligned_start_y = snd (blk_start block) AND (- 8);
          aligned_end_y = align_up (snd (blk_end block)) 8;
          aligned_end_x = align_up (fst (blk_end block)) 8;
          inp = in_surface sample;
          out = out_surface sample;
          ystep = num_pages horz_subsample vert_subsample * vert_chroma_blocks * 8
      in fold (\<lambda>blk_pos_y st.
                 fold (\<lambda>blk_pos_x st.
                         tile_iteration horz_subsample vert_subsample quantization rm dct sample
                           inp blockDim (blk_pos_x, blk_pos_y) st)
                   (loop_from aligned_start_x aligned_end_x (fst blockDim)) st)
           (loop_from aligned_start_y aligned_end_y ystep) (flat_blocks, out))"

section \<open>Notions used to state the properties\<close>

text \<open>
  The positions of the pixels of one subsampling group, anchor first, in the order of
  the \<open>luma\<close> array: 1, 2 or 4 positions.
\<close>

definition group_positions :: "bool \<Rightarrow> bool \<Rightarrow> ivec2 \<Rightarrow> ivec2 list" where
  "group_positions hs vs offset =
     map (\<lambda>(i, j, k). (fst offset + j, snd offset + i)) (sub_positions hs vs)"

text \<open>The arithmetic mean of 8-bit values in exact arithmetic, rounded and saturated.\<close>

definition mean_sat :: "rounding \<Rightarrow> u8 list \<Rightarrow> u8" where
  "mean_sat rm xs = ConvertSat rm (of_int (sum_list (map uint xs)) / of_nat (length xs))"

definition mean_rgb :: "rounding \<Rightarrow> u8 vec3 list \<Rightarrow> u8 vec3" where
  "mean_rgb rm ps =
     (mean_sat rm (map fst ps), mean_sat rm (map (fst \<circ> snd) ps), mean_sat rm (map (snd \<circ> snd) ps))"

text \<open>The three elements stored at a pixel position of a surface.\<close>

definition surf_pixel :: "Surface2D \<Rightarrow> ivec2 \<Rightarrow> u8 vec3" where
  "surf_pixel surf pos =
     (let pixel = surf_offset surf pos
      in (surf_data surf pixel, surf_data surf (pixel + 1), surf_data surf (pixel + 2)))"

definition in_bounds :: "Surface2D \<Rightarrow> ivec2 \<Rightarrow> bool" where
  "in_bounds surf pos \<longleftrightarrow>
     0 \<le> fst pos \<and> 0 \<le> snd pos \<and> fst pos < fst (surf_size surf) \<and> snd pos < snd (surf_size surf)"

text \<open>
  A layout in which distinct pixels of the image do not share elements: a pixel takes
  at least three elements and a row at least the width of the image.
\<close>

definition packed_layout :: "Surface2D \<Rightarrow> bool" where
  "packed_layout surf \<longleftrightarrow>
     3 \<le> fst (surf_strides surf) \<and>
     fst (surf_size surf) * fst (surf_strides surf) \<le> snd (surf_strides surf)"

text \<open>The table entry at the (row, column) position of a scratch cell, as a \<^verbatim>\<open>float\<close>.\<close>

definition cell_q :: "mat8 \<Rightarrow> int \<times> int \<times> int \<Rightarrow> float32" where
  "cell_q table cell =
     u8_to_float (mat_get table (nat (fst (snd cell))) (nat (snd (snd cell))))"

text \<open>
  The element offsets that belong to a pixel inside the declared dimensions of a
  surface, and the relation between a surface and a later state of it that has the same
  geometry and the same content at every other offset.
\<close>

definition in_image :: "Surface2D \<Rightarrow> int \<Rightarrow> bool" where
  "in_image surf a \<longleftrightarrow>
     (\<exists>x\<in>{0..<fst (surf_size surf)}. \<exists>y\<in>{0..<snd (surf_size surf)}. \<exists>c\<in>{0..<3}.
        a = surf_offset surf (x, y) + c)"

definition same_outside :: "Surface2D \<Rightarrow> Surface2D \<Rightarrow> bool" where
  "same_outside s0 s \<longleftrightarrow>
     surf_size s = surf_size s0 \<and> surf_strides s = surf_strides s0 \<and>
     (\<forall>a. \<not> in_image s0 a \<longrightarrow> surf_data s a = surf_data s0 a)"

text \<open>
  The cells of the shared array a thread owns for one page, the cell of the coefficient at
  position \<open>(X, Y)\<close> of a page in a plane that starts at block \<open>base\<close> and has \<open>W\<close> by \<open>H\<close>
  blocks per page, and the table of the plane a cell belongs to: the Cb blocks come
  first, then the Cr blocks, then the luma blocks.
\<close>

definition cells_of :: "bool \<Rightarrow> bool \<Rightarrow> ivec2 \<Rightarrow> int \<Rightarrow> (int \<times> int \<times> int) set" where
  "cells_of hs vs t page =
     {cb_cell t page, cr_cell hs vs t page} \<union>
     {luma_cell hs vs t page i j | i j k. (i, j, k) \<in> set (sub_positions hs vs)}"

definition cell_at :: "int \<Rightarrow> int \<Rightarrow> int \<Rightarrow> int \<Rightarrow> int \<Rightarrow> int \<Rightarrow> int \<times> int \<times> int" where
  "cell_at base W H X Y page = (base + (Y div 8) * W + X div 8 + page * (W * H), Y mod 8, X mod 8)"

definition plane_table :: "bool \<Rightarrow> bool \<Rightarrow> SampleDesc \<Rightarrow> int \<times> int \<times> int \<Rightarrow> mat8" where
  "plane_table hs vs sample cell =
     (if fst cell < 2 * chroma_blocks hs vs then chroma_Q_table sample else luma_Q_table sample)"

text \<open>
  What the flat-image scenario needs of the absent 1-D transforms: a slice of zeros is
  transformed to a slice of zeros (the transforms are linear). The cells of the shared
  array that the kernel uses are those of the blocks \<open>0..total_blocks - 1\<close>, rows and
  columns \<open>0..7\<close>.
\<close>

definition dct_zero_preserving :: "dct1d \<Rightarrow> bool" where
  "dct_zero_preserving f \<longleftrightarrow> (\<forall>g. (\<forall>k\<in>{0..<8}. g k = 0) \<longrightarrow> (\<forall>k\<in>{0..<8}. f g k = 0))"

definition live_cell :: "bool \<Rightarrow> bool \<Rightarrow> int \<times> int \<times> int \<Rightarrow> bool" where
  "live_cell hs vs cell \<longleftrightarrow>
     (case cell of (b, r, c) \<Rightarrow>
        0 \<le> b \<and> b < total_blocks hs vs \<and> 0 \<le> r \<and> r < 8 \<and> 0 \<le> c \<and> c < 8)"

definition live_zero :: "bool \<Rightarrow> bool \<Rightarrow> scratch \<Rightarrow> bool" where
  "live_zero hs vs S \<longleftrightarrow> (\<forall>cell. live_cell hs vs cell \<longrightarrow> S cell = 0)"

text \<open>An input whose pixels inside the image all have the value 128 in every channel.\<close>

definition flat_gray :: "SampleDesc \<Rightarrow> bool" where
  "flat_gray sample \<longleftrightarrow>
     (\<forall>x\<in>{0..<fst (img_size sample)}. \<forall>y\<in>{0..<snd (img_size sample)}. \<forall>c\<in>{0..<3}.
        in_data sample (surf_offset (in_surface sample) (x, y) + c) = 128)"

text \<open>The three cells a thread fills for one page when no axis is subsampled.\<close>

definition gray_cells :: "ivec2 \<Rightarrow> int \<Rightarrow> (int \<times> int \<times> int) set" where
  "gray_cells t page =
     {cb_cell t page, cr_cell False False t page, luma_cell False False t page 0 0}"


section \<open>A concrete scenario\<close>

text \<open>
  A flat mid-gray 16x16 sample with the default (quality 95) tables in a packed layout,
  the block descriptor that covers it, and the identity in place of the two transforms.
\<close>

definition example_sample :: SampleDesc where
  "example_sample = SampleDesc_default HalfEven (\<lambda>_. 128) (\<lambda>_. 0) (16, 16) (3, 48)"

definition example_block :: BlockDesc where
  "example_block = \<lparr>sample_idx = 0, blk_start = (0, 0), blk_end = (16, 16)\<rparr>"

definition identity_dct :: dct_prims where
  "identity_dct = \<lparr>dct_fwd_8x8_1d = (\<lambda>g. g), dct_inv_8x8_1d = (\<lambda>g. g)\<rparr>"

text \<open>
  The value of an 8-bit element as a rational, two pixels that differ by at most one
  level in every channel, and the pixel obtained by converting a pixel to YCbCr and back.
\<close>

definition u8r :: "u8 \<Rightarrow> rat" where
  "u8r w = of_int (uint w)"

definition within1 :: "u8 vec3 \<Rightarrow> u8 vec3 \<Rightarrow> bool" where
  "within1 p q \<longleftrightarrow>
     (case p of (p0, p1, p2) \<Rightarrow> case q of (q0, q1, q2) \<Rightarrow>
        \<bar>uint p0 - uint q0\<bar> \<le> 1 \<and> \<bar>uint p1 - uint q1\<bar> \<le> 1 \<and> \<bar>uint p2 - uint q2\<bar> \<le> 1)"

definition colour_round_trip :: "rounding \<Rightarrow> u8 vec3 \<Rightarrow> u8 vec3" where
  "colour_round_trip rm p = ycbcr_to_rgb rm (rgb_to_y rm p, rgb_to_cb rm p, rgb_to_cr rm p)"

text \<open>
  Modelled from the spec: the numeric contract of the absent 1-D transforms. The spec has
  the kernel without quantization ``a no-op DCT round-trip (identity up to floating-point
  rounding)''. On one 8x8 block (rows and columns \<open>0..7\<close> of a function of row and column)
  the four passes are the forward transform of every row, then of every column, then the
  inverse transform of every column, then of every row. The contract is that they bring
  every entry of a block of level-shifted 8-bit values back to within a quarter of a level.
\<close>

definition block_rows :: "dct1d \<Rightarrow> (int \<Rightarrow> int \<Rightarrow> float32) \<Rightarrow> int \<Rightarrow> int \<Rightarrow> float32" where
  "block_rows f B =
     (\<lambda>r c. if 0 \<le> r \<and> r < 8 \<and> 0 \<le> c \<and> c < 8 then f (\<lambda>k. B r k) c else B r c)"

definition block_cols :: "dct1d \<Rightarrow> (int \<Rightarrow> int \<Rightarrow> float32) \<Rightarrow> int \<Rightarrow> int \<Rightarrow> float32" where
  "block_cols f B =
     (\<lambda>r c. if 0 \<le> r \<and> r < 8 \<and> 0 \<le> c \<and> c < 8 then f (\<lambda>k. B k c) r else B r c)"

definition dct_round_trip :: "dct_prims \<Rightarrow> (int \<Rightarrow> int \<Rightarrow> float32) \<Rightarrow> int \<Rightarrow> int \<Rightarrow> float32" where
  "dct_round_trip dct B =
     block_rows (dct_inv_8x8_1d dct)
       (block_cols (dct_inv_8x8_1d dct)
          (block_cols (dct_fwd_8x8_1d dct) (block_rows (dct_fwd_8x8_1d dct) B)))"

definition byte_block :: "(int \<Rightarrow> int \<Rightarrow> float32) \<Rightarrow> bool" where
  "byte_block B \<longleftrightarrow> (\<forall>r\<in>{0..<8}. \<forall>c\<in>{0..<8}. \<exists>w. B r c = u8r w - 128)"

definition dct_cancels :: "dct_prims \<Rightarrow> bool" where
  "dct_cancels dct \<longleftrightarrow>
     (\<forall>B. byte_block B \<longrightarrow>
        (\<forall>r\<in>{0..<8}. \<forall>c\<in>{0..<8}. \<bar>dct_round_trip dct B r c - B r c\<bar> \<le> 1 / 4))"

text \<open>
  The slices (block and row, or block and column) that the threads of a 32x16 CUDA block
  transform in one pass when no axis is subsampled, in the order of the sequential run:
  768 slices, the thread with index \<open>tid\<close> taking \<open>tid\<close>, \<open>tid + 512\<close>, ... below 768.
\<close>

definition slices :: "int list" where
  "slices = concat (map (\<lambda>t. loop_from (tid (32, 16) t) 768 512) (threads (32, 16)))"

text \<open>A 16x16 sample that is not flat: the element at offset \<open>a\<close> holds \<open>7 * a\<close> modulo 256.\<close>

definition example_gradient :: SampleDesc where
  "example_gradient =
     SampleDesc_default HalfEven (\<lambda>a. word_of_int (7 * a)) (\<lambda>_. 0) (16, 16) (3, 48)"

section \<open>Properties of the rounding to single precision\<close>

lemma rne_of_int: "rne (of_int n) = n"
  by (simp add: rne_def)

lemma rne_bounds: "\<lfloor>x\<rfloor> \<le> rne x \<and> rne x \<le> \<lfloor>x\<rfloor> + 1"
  by (simp add: rne_def Let_def)

lemma rne_mono: "x \<le> y \<Longrightarrow> rne x \<le> rne y"
proof -
  assume xy: "x \<le> y"
  have fxy: "\<lfloor>x\<rfloor> \<le> \<lfloor>y\<rfloor>" using xy by (rule floor_mono)
  show ?thesis
  proof (cases "\<lfloor>x\<rfloor> = \<lfloor>y\<rfloor>")
    case True
    then show ?thesis using xy by (auto simp: rne_def Let_def)
  next
    case False
    then have "\<lfloor>x\<rfloor> + 1 \<le> \<lfloor>y\<rfloor>" using fxy by simp
    then show ?thesis using rne_bounds [of x] rne_bounds [of y] by linarith
  qed
qed

lemma rne_err: "\<bar>of_int (rne x) - x\<bar> \<le> 1 / 2"
proof -
  have "of_int \<lfloor>x\<rfloor> \<le> x" "x < of_int \<lfloor>x\<rfloor> + 1" by linarith+
  then show ?thesis by (auto simp: rne_def Let_def abs_le_iff)
qed

lemma rne_minus: "rne (- x) = - rne x"
proof (cases "x = of_int \<lfloor>x\<rfloor>")
  case True
  then have "rne (- x) = rne (of_int (- \<lfloor>x\<rfloor>))" "rne x = rne (of_int \<lfloor>x\<rfloor>)" by simp_all
  then show ?thesis by (simp only: rne_of_int)
next
  case False
  with of_int_floor_le [of x] have lt: "of_int \<lfloor>x\<rfloor> < x" by (metis order_less_le)
  have nz: "\<forall>n. x \<noteq> of_int n"
  proof (intro allI notI)
    fix n assume "x = of_int n"
    then have "of_int \<lfloor>x\<rfloor> = x" by simp
    with False show False by simp
  qed
  have "\<lceil>x\<rceil> = \<lfloor>x\<rfloor> + 1" using nz by (simp add: ceiling_altdef)
  then have fm: "\<lfloor>- x\<rfloor> = - \<lfloor>x\<rfloor> - 1" by (simp add: ceiling_def)
  show ?thesis using lt unfolding rne_def Let_def fm
    by (auto simp: algebra_simps)
qed

lemma p2_pos: "0 < (2::rat) powi e" by simp

lemma p2_less_iff: "(2::rat) powi a < 2 powi b \<longleftrightarrow> a < b"
proof
  assume h: "(2::rat) powi a < 2 powi b"
  show "a < b"
  proof (rule ccontr)
    assume "\<not> a < b"
    then have "b \<le> a" by simp
    then have "(2::rat) powi b \<le> 2 powi a" by (rule power_int_increasing) simp
    with h show False by simp
  qed
next
  assume "a < b"
  then show "(2::rat) powi a < 2 powi b" by (rule power_int_strict_increasing) simp
qed

lemma p2_le_iff: "(2::rat) powi a \<le> 2 powi b \<longleftrightarrow> a \<le> b"
  using p2_less_iff [of b a] by (auto simp: not_less [symmetric])

lemma p2_add: "(2::rat) powi (a + b) = 2 powi a * 2 powi b"
  by (rule power_int_add) simp

lemma p2_diff: "(2::rat) powi (a - b) = 2 powi a / 2 powi b"
  by (rule power_int_diff) simp

lemma bitlen_p2_bounds:
  assumes "0 < p"
  shows "(2::rat) powi (bitlen p - 1) \<le> of_int p" "of_int p < (2::rat) powi bitlen p"
proof -
  have b1: "1 \<le> bitlen p" using assms bitlen_eq_zero_iff [of p] bitlen_nonneg [of p] by linarith
  have "2 ^ nat (bitlen p - 1) \<le> p" "p < 2 ^ nat (bitlen p)"
    using bitlen_bounds [OF assms] by auto
  then have "rat_of_int (2 ^ nat (bitlen p - 1)) \<le> of_int p" "rat_of_int p < of_int (2 ^ nat (bitlen p))"
    by (simp_all only: of_int_le_iff of_int_less_iff)
  then show "(2::rat) powi (bitlen p - 1) \<le> of_int p" "of_int p < (2::rat) powi bitlen p"
    using b1 by (simp_all add: power_int_nonneg_exp)
qed

lemma bexp_bounds:
  assumes "0 < x"
  shows "2 powi bexp x \<le> x" "x < 2 powi (bexp x + 1)"
proof -
  obtain p q where pq: "quotient_of x = (p, q)" by (cases "quotient_of x")
  have q: "0 < q" using pq by (rule quotient_of_denom_pos)
  have x: "x = of_int p / of_int q" using pq by (rule quotient_of_div)
  have p: "0 < p" using assms q x by (simp add: zero_less_divide_iff)
  define e0 where "e0 = bitlen p - bitlen q"
  have xq: "x * of_int q = of_int p" using q x by simp
  have qpos: "0 < rat_of_int q" using q by simp
  have "x * 2 powi (bitlen q - 1) \<le> x * of_int q"
    using bitlen_p2_bounds(1) [OF q] assms by simp
  also have "\<dots> < 2 powi bitlen p" using bitlen_p2_bounds(2) [OF p] xq by simp
  finally have "x < 2 powi bitlen p / 2 powi (bitlen q - 1)"
    by (simp add: pos_less_divide_eq)
  then have up: "x < 2 powi (e0 + 1)"
    using p2_diff [of "bitlen p" "bitlen q - 1"] by (simp add: e0_def algebra_simps)
  have "2 powi (bitlen p - 1) \<le> x * of_int q" using bitlen_p2_bounds(1) [OF p] xq by simp
  also have "\<dots> < x * 2 powi bitlen q" using bitlen_p2_bounds(2) [OF q] assms by simp
  finally have "2 powi (bitlen p - 1) / 2 powi bitlen q < x"
    by (simp add: pos_divide_less_eq)
  then have lo: "2 powi (e0 - 1) < x"
    using p2_diff [of "bitlen p - 1" "bitlen q"] by (simp add: e0_def algebra_simps)
  have b: "bexp x = (if 2 powi e0 \<le> x then e0 else e0 - 1)"
    by (simp add: bexp_def pq e0_def Let_def)
  show "2 powi bexp x \<le> x" using lo by (simp add: b)
  show "x < 2 powi (bexp x + 1)" using up by (simp add: b)
qed

lemma bexp_unique:
  assumes "0 < x" "2 powi e \<le> x" "x < 2 powi (e + 1)"
  shows "bexp x = e"
proof -
  have "(2::rat) powi e < 2 powi (bexp x + 1)" using assms(2) bexp_bounds(2) [OF assms(1)] by simp
  moreover have "(2::rat) powi bexp x < 2 powi (e + 1)" using assms(3) bexp_bounds(1) [OF assms(1)] by simp
  ultimately show ?thesis by (simp add: p2_less_iff)
qed

lemma bexp_mono:
  assumes "0 < x" "x \<le> y"
  shows "bexp x \<le> bexp y"
proof -
  have "0 < y" using assms by simp
  then have "(2::rat) powi bexp x < 2 powi (bexp y + 1)"
    using bexp_bounds(1) [OF assms(1)] bexp_bounds(2) [of y] assms(2) by simp
  then show ?thesis by (simp add: p2_less_iff)
qed

lemma ulp_exp_minus: "ulp_exp (- x) = ulp_exp x"
  by (simp add: ulp_exp_def)

lemma fl_minus: "fl (- x) = - fl x"
  by (simp add: fl_def ulp_exp_minus rne_minus)

lemma fl_zero: "fl 0 = 0"
  by (simp add: fl_def rne_def)

lemma ulp_exp_mono:
  assumes "0 < x" "x \<le> y"
  shows "ulp_exp x \<le> ulp_exp y"
  using bexp_mono [OF assms] assms by (simp add: ulp_exp_def)

lemma fl_nonneg: "0 \<le> x \<Longrightarrow> 0 \<le> fl x"
proof -
  assume "0 \<le> x"
  then have "0 \<le> x / 2 powi ulp_exp x" by simp
  then have "rne 0 \<le> rne (x / 2 powi ulp_exp x)" by (rule rne_mono)
  then have "0 \<le> rne (x / 2 powi ulp_exp x)" using rne_of_int [of 0] by simp
  then show ?thesis by (simp add: fl_def)
qed

lemma fl_mono_pos:
  assumes "0 < x" "x \<le> y"
  shows "fl x \<le> fl y"
proof (cases "ulp_exp x = ulp_exp y")
  case True
  have "x / 2 powi ulp_exp y \<le> y / 2 powi ulp_exp y" using assms(2) by (simp add: divide_right_mono)
  then have "rne (x / 2 powi ulp_exp y) \<le> rne (y / 2 powi ulp_exp y)" by (rule rne_mono)
  then show ?thesis by (simp add: fl_def True)
next
  case False
  have ypos: "0 < y" using assms by simp
  define a where "a = ulp_exp x"
  define b where "b = ulp_exp y"
  have ab: "a + 1 \<le> b" using False ulp_exp_mono [OF assms] by (simp add: a_def b_def)
  have bx: "bexp x + 1 \<le> a + 24" using assms(1) by (simp add: a_def ulp_exp_def)
  have "- 126 - 23 \<le> a" by (simp add: a_def ulp_exp_def)
  then have "b = bexp y - 23" using ab ypos by (simp add: b_def ulp_exp_def max_def split: if_splits)
  then have by': "bexp y = b + 23" by simp
  have "x < 2 powi (bexp x + 1)" using bexp_bounds(2) [OF assms(1)] .
  also have "\<dots> \<le> 2 powi (a + 24)" using bx by (simp add: p2_le_iff)
  finally have "x / 2 powi a < 2 powi (a + 24) / 2 powi a" by (simp add: divide_strict_right_mono)
  then have "x / 2 powi a \<le> of_int (2 ^ 24)" using p2_diff [of "a + 24" a] by simp
  then have "rne (x / 2 powi a) \<le> rne (of_int (2 ^ 24))" by (rule rne_mono)
  then have "rne (x / 2 powi a) \<le> 2 ^ 24" by (simp only: rne_of_int)
  then have "rat_of_int (rne (x / 2 powi a)) \<le> of_int (2 ^ 24)" by (simp only: of_int_le_iff)
  then have "fl x \<le> 2 ^ 24 * 2 powi a" by (simp add: fl_def a_def)
  also have "\<dots> = 2 powi (a + 24)" using p2_add [of a 24] by simp
  also have "\<dots> \<le> 2 powi (b + 23)" using ab by (simp add: p2_le_iff)
  finally have 1: "fl x \<le> 2 powi (b + 23)" .
  have "2 powi (b + 23) \<le> y" using bexp_bounds(1) [OF ypos] by (simp add: by')
  then have "2 powi (b + 23) / 2 powi b \<le> y / 2 powi b" by (simp add: divide_right_mono)
  then have "of_int (2 ^ 23) \<le> y / 2 powi b" using p2_diff [of "b + 23" b] by simp
  then have "rne (of_int (2 ^ 23)) \<le> rne (y / 2 powi b)" by (rule rne_mono)
  then have "2 ^ 23 \<le> rne (y / 2 powi b)" by (simp only: rne_of_int)
  then have "rat_of_int (2 ^ 23) \<le> of_int (rne (y / 2 powi b))" by (simp only: of_int_le_iff)
  then have "2 ^ 23 * 2 powi b \<le> fl y" by (simp add: fl_def b_def)
  moreover have "2 ^ 23 * 2 powi b = (2::rat) powi (b + 23)" using p2_add [of b 23] by simp
  ultimately have 2: "2 powi (b + 23) \<le> fl y" by simp
  from 1 2 show ?thesis by simp
qed

lemma fl_mono: "x \<le> y \<Longrightarrow> fl x \<le> fl y"
proof -
  assume xy: "x \<le> y"
  consider "0 < x" | "x \<le> 0" "0 \<le> y" | "y < 0" using xy by linarith
  then show ?thesis
  proof cases
    case 1
    then show ?thesis using xy by (rule fl_mono_pos)
  next
    case 2
    have "0 \<le> fl (- x)" using 2 by (intro fl_nonneg) simp
    then have "fl x \<le> 0" by (simp add: fl_minus)
    moreover have "0 \<le> fl y" using 2 by (intro fl_nonneg)
    ultimately show ?thesis by simp
  next
    case 3
    have "fl (- y) \<le> fl (- x)" using 3 xy by (intro fl_mono_pos) simp_all
    then show ?thesis by (simp add: fl_minus)
  qed
qed

lemma fl_err: "\<bar>fl x - x\<bar> \<le> 2 powi ulp_exp x / 2"
proof -
  define u where "u = (2::rat) powi ulp_exp x"
  define r where "r = rat_of_int (rne (x / u))"
  have u: "0 < u" by (simp add: u_def)
  have "\<bar>r - x / u\<bar> \<le> 1 / 2" unfolding r_def by (rule rne_err)
  then have B: "\<bar>r - x / u\<bar> * u \<le> 1 / 2 * u" using u by (simp only: mult_le_cancel_right_pos)
  have C: "(r - x / u) * u = r * u - x" using u by (simp add: left_diff_distrib)
  have D: "\<bar>r - x / u\<bar> * u = \<bar>r * u - x\<bar>"
    using u abs_mult_pos [of u "r - x / u"] C by simp
  from B D have "\<bar>r * u - x\<bar> \<le> u / 2" by simp
  then show ?thesis by (simp add: fl_def u_def r_def)
qed

lemma fl_of_int:
  assumes "\<bar>n\<bar> < 2 ^ 24"
  shows "fl (of_int n) = of_int n"
proof (cases "n = 0")
  case True
  then show ?thesis by (simp add: fl_zero)
next
  case False
  define x where "x = rat_of_int \<bar>n\<bar>"
  have xpos: "0 < x" using False by (simp add: x_def)
  have "x < of_int (2 ^ 24)" unfolding x_def using assms by (simp only: of_int_less_iff)
  then have "2 powi bexp x < (2::rat) powi 24" using bexp_bounds(1) [OF xpos] by simp
  then have "bexp x < 24" by (simp only: p2_less_iff)
  then have e: "ulp_exp (of_int n) \<le> 0" by (simp add: ulp_exp_def x_def)
  define k where "k = nat (- ulp_exp (of_int n))"
  have pk: "(2::rat) powi ulp_exp (of_int n) = 1 / 2 ^ k"
    using e by (simp add: k_def power_int_def inverse_eq_divide power_one_over)
  have "rat_of_int n / (1 / 2 ^ k) = of_int (n * 2 ^ k)" by simp
  then have "rne (rat_of_int n / (1 / 2 ^ k)) = n * 2 ^ k" by (simp only: rne_of_int)
  then show ?thesis by (simp add: fl_def pk)
qed

section \<open>The table builders\<close>

lemma fold_update_map:
  "n \<le> length xs \<Longrightarrow>
   fold (\<lambda>j xs. xs[j := g (xs ! j)]) [0..<n] xs = map g (take n xs) @ drop n xs"
proof (induction n)
  case 0
  then show ?case by simp
next
  case (Suc n)
  then have n: "n < length xs" by simp
  have "fold (\<lambda>j xs. xs[j := g (xs ! j)]) [0..<Suc n] xs =
        (map g (take n xs) @ drop n xs)[n := g ((map g (take n xs) @ drop n xs) ! n)]"
    using Suc by simp
  also have "(map g (take n xs) @ drop n xs) ! n = xs ! n"
    using n by (simp add: nth_append)
  also have "(map g (take n xs) @ drop n xs)[n := g (xs ! n)] =
             map g (take n xs) @ (drop n xs)[0 := g (xs ! n)]"
    using n by (simp add: list_update_append)
  also have "(drop n xs)[0 := g (xs ! n)] = g (xs ! n) # drop (Suc n) xs"
    using n by (simp add: Cons_nth_drop_Suc [symmetric])
  also have "map g (take n xs) @ g (xs ! n) # drop (Suc n) xs =
             map g (take (Suc n) xs) @ drop (Suc n) xs"
    using n by (simp add: take_Suc_conv_app_nth)
  finally show ?case .
qed

lemma row_loop:
  "fold (\<lambda>j t. mat_set t i j (f (mat_get t i j))) js t =
   t[i := fold (\<lambda>j r. r[j := f (r ! j)]) js (t ! i)]"
proof (cases "i < length t")
  case False
  have "fold (\<lambda>j t. mat_set t i j (f (mat_get t i j))) js t = t"
    using False by (induction js) (simp_all add: mat_set_def list_update_beyond)
  then show ?thesis using False by (simp add: list_update_beyond)
next
  case True
  then show ?thesis
  proof (induction js arbitrary: t)
    case Nil
    then show ?case by simp
  next
    case (Cons j js)
    let ?t = "mat_set t i j (f (mat_get t i j))"
    have len: "i < length ?t" using Cons.prems by (simp add: mat_set_def)
    show ?case using Cons.IH [OF len] Cons.prems
      by (simp add: mat_set_def mat_get_def)
  qed
qed

lemma scale_table_map:
  assumes "length t = 8" "list_all (\<lambda>r. length r = 8) t"
  shows "scale_table rm s t = map (map (\<lambda>e. ConvertSat rm (fmul s (u8_to_float e)))) t"
proof -
  let ?f = "\<lambda>e. ConvertSat rm (fmul s (u8_to_float e))"
  let ?G = "\<lambda>r. fold (\<lambda>j r. r[j := ?f (r ! j)]) [0..<8] r"
  have "(\<lambda>i. fold (\<lambda>j t. mat_set t i j (?f (mat_get t i j))) [0..<8]) =
        (\<lambda>i t. t[i := ?G (t ! i)])"
    by (intro ext) (rule row_loop)
  then have "scale_table rm s t = fold (\<lambda>i t. t[i := ?G (t ! i)]) [0..<8] t"
    unfolding scale_table_def by simp
  also have "\<dots> = map ?G (take 8 t) @ drop 8 t"
    using assms(1) by (intro fold_update_map) simp
  also have "\<dots> = map ?G t" using assms(1) by simp
  also have "\<dots> = map (map ?f) t"
  proof (rule map_cong [OF refl])
    fix r assume "r \<in> set t"
    then have "length r = 8" using assms(2) by (simp add: list_all_iff)
    then show "?G r = map ?f r" using fold_update_map [of 8 r ?f] by simp
  qed
  finally show ?thesis .
qed

lemma luma_base_shape: "length luma_base = 8" "list_all (\<lambda>r. length r = 8) luma_base"
  by (simp_all add: luma_base_def)

lemma chroma_base_shape: "length chroma_base = 8" "list_all (\<lambda>r. length r = 8) chroma_base"
  by (simp_all add: chroma_base_def)

lemma u8_to_float_exact: "u8_to_float w = of_int (uint w)"
proof -
  have "uint w < 2 ^ 8" using uint_bounded [of w] by simp
  then have "\<bar>uint w\<bar> < 2 ^ 24" by simp
  then show ?thesis unfolding u8_to_float_def by (rule fl_of_int)
qed

lemma int_to_float_exact: "\<bar>n\<bar> < 2 ^ 24 \<Longrightarrow> int_to_float n = of_int n"
  unfolding int_to_float_def by (rule fl_of_int)


lemma clamp_range: "lo \<le> hi \<Longrightarrow> lo \<le> clamp v lo hi \<and> clamp v lo hi \<le> hi"
  by (simp add: clamp_def)

lemma clamp_mono: "lo \<le> hi \<Longrightarrow> a \<le> b \<Longrightarrow> clamp a lo hi \<le> clamp b lo hi"
  by (simp add: clamp_def)

lemma round_to_int_mono: "a \<le> b \<Longrightarrow> round_to_int rm a \<le> round_to_int rm b"
proof (cases rm)
  case HalfAway
  assume ab: "a \<le> b"
  have 1: "\<lfloor>a + 1 / 2\<rfloor> \<le> \<lfloor>b + 1 / 2\<rfloor>" using ab by (intro floor_mono) simp
  have 2: "\<lfloor>- b + 1 / 2\<rfloor> \<le> \<lfloor>- a + 1 / 2\<rfloor>" using ab by (intro floor_mono) simp
  show ?thesis
  proof (cases "0 \<le> a")
    case True
    then show ?thesis using ab 1 by (simp add: HalfAway)
  next
    case False
    show ?thesis
    proof (cases "0 \<le> b")
      case True
      have "0 \<le> - a + 1 / 2" using False by simp
      then have "0 \<le> \<lfloor>- a + 1 / 2\<rfloor>" by (simp only: zero_le_floor)
      moreover have "0 \<le> b + 1 / 2" using True by simp
      then have "0 \<le> \<lfloor>b + 1 / 2\<rfloor>" by (simp only: zero_le_floor)
      moreover have "round_to_int HalfAway a = - \<lfloor>- a + 1 / 2\<rfloor>" using False by simp
      moreover have "round_to_int HalfAway b = \<lfloor>b + 1 / 2\<rfloor>" using True by simp
      ultimately show ?thesis unfolding HalfAway by linarith
    next
      case nb: False
      have "round_to_int HalfAway a = - \<lfloor>- a + 1 / 2\<rfloor>" using False by simp
      moreover have "round_to_int HalfAway b = - \<lfloor>- b + 1 / 2\<rfloor>" using nb by simp
      ultimately show ?thesis unfolding HalfAway using 2 by linarith
    qed
  qed
next
  case HalfEven
  assume "a \<le> b"
  then show ?thesis by (simp add: HalfEven rne_mono)
qed

lemma uint_ConvertSat: "uint (ConvertSat rm x) = clamp (round_to_int rm x) 0 255"
proof -
  have "0 \<le> clamp (round_to_int rm x) 0 255 \<and> clamp (round_to_int rm x) 0 255 \<le> 255"
    by (rule clamp_range) simp
  then show ?thesis
    by (simp add: ConvertSat_def uint_word_of_int take_bit_int_eq_self)
qed

lemma ConvertSat_mono: "a \<le> b \<Longrightarrow> ConvertSat rm a \<le> ConvertSat rm b"
  by (simp add: word_le_def uint_ConvertSat clamp_mono round_to_int_mono)

lemma scale_closed: "GetQualityFactorScale q = single_scale q"
proof -
  define c where "c = clamp q 1 99"
  have c: "1 \<le> c \<and> c \<le> 99" unfolding c_def by (rule clamp_range) simp
  then have "int_to_float c = of_int c" "int_to_float (2 * c) = of_int (2 * c)"
    by (simp_all add: int_to_float_exact)
  then show ?thesis
    by (simp add: GetQualityFactorScale_def single_scale_def Let_def c_def [symmetric]
        fdiv_def fsub_def)
qed

lemma fl_one: "fl 1 = 1"
  using fl_of_int [of 1] by simp

lemma single_scale_antitone:
  assumes "1 \<le> a" "a \<le> b" "b \<le> 99"
  shows "single_scale b \<le> single_scale a"
proof -
  have ca: "clamp a 1 99 = a" and cb: "clamp b 1 99 = b" using assms by (simp_all add: clamp_def)
  have ra: "(0::rat) < of_int a" and rab: "rat_of_int a \<le> of_int b" using assms by simp_all
  consider "b < 50" | "a < 50" "50 \<le> b" | "50 \<le> a" using assms by linarith
  then show ?thesis
  proof cases
    case 1
    have "50 / rat_of_int b \<le> 50 / of_int a" using ra rab by (simp add: frac_le)
    then show ?thesis using 1 assms by (simp add: single_scale_def ca cb fl_mono)
  next
    case 2
    have "1 \<le> 50 / rat_of_int a" using 2 ra by simp
    then have "fl 1 \<le> fl (50 / rat_of_int a)" by (rule fl_mono)
    then have hi: "1 \<le> fl (50 / rat_of_int a)" by (simp add: fl_one)
    have "1 \<le> rat_of_int (2 * b) / 100" using 2 by simp
    then have "fl 1 \<le> fl (rat_of_int (2 * b) / 100)" by (rule fl_mono)
    then have "2 - fl (rat_of_int (2 * b) / 100) \<le> 1" by (simp add: fl_one)
    then have "fl (2 - fl (rat_of_int (2 * b) / 100)) \<le> fl 1" by (rule fl_mono)
    then have "fl (2 - fl (rat_of_int (2 * b) / 100)) \<le> 1" by (simp add: fl_one)
    then show ?thesis using 2 hi by (simp add: single_scale_def ca cb)
  next
    case 3
    have "rat_of_int (2 * a) / 100 \<le> rat_of_int (2 * b) / 100" using rab by simp
    then have "fl (rat_of_int (2 * a) / 100) \<le> fl (rat_of_int (2 * b) / 100)" by (rule fl_mono)
    then have "2 - fl (rat_of_int (2 * b) / 100) \<le> 2 - fl (rat_of_int (2 * a) / 100)" by simp
    then have "fl (2 - fl (rat_of_int (2 * b) / 100)) \<le> fl (2 - fl (rat_of_int (2 * a) / 100))"
      by (rule fl_mono)
    then show ?thesis using 3 assms by (simp add: single_scale_def ca cb)
  qed
qed

lemma table_closed:
  assumes "length base = 8" "list_all (\<lambda>r. length r = 8) base"
  shows "scale_table rm (GetQualityFactorScale q) base =
         map (map (\<lambda>e. ConvertSat rm (fl (single_scale q * of_int (uint e))))) base"
  by (simp add: scale_table_map [OF assms] scale_closed fmul_def u8_to_float_exact)

lemma table_entry:
  assumes "length base = 8" "list_all (\<lambda>r. length r = 8) base" "i < 8" "j < 8"
  shows "mat_get (scale_table rm (GetQualityFactorScale q) base) i j =
         ConvertSat rm (fl (single_scale q * of_int (uint (mat_get base i j))))"
  using assms by (simp add: table_closed mat_get_def list_all_length)

lemma entry_antitone:
  assumes "1 \<le> a" "a \<le> b" "b \<le> 99"
  shows "ConvertSat rm (fl (single_scale b * of_int (uint (e::u8)))) \<le>
         ConvertSat rm (fl (single_scale a * of_int (uint e)))"
proof -
  have "single_scale b * of_int (uint e) \<le> single_scale a * of_int (uint e)"
  proof (rule mult_right_mono [OF single_scale_antitone [OF assms]])
    have "0 \<le> uint e" by simp
    then show "0 \<le> rat_of_int (uint e)" by (simp only: of_int_0_le_iff)
  qed
  then show ?thesis by (intro ConvertSat_mono fl_mono)
qed


lemma spec_entry: "i < 8 \<Longrightarrow> j < 8 \<Longrightarrow> mat_get (spec_table rm luma_base q) i j =
   ConvertSat rm (spec_scale q * of_int (uint (mat_get luma_base i j)))"
  using luma_base_shape by (simp add: spec_table_def mat_get_def list_all_length)


lemma clamp_idem: "clamp (clamp q 1 99) 1 99 = clamp q 1 99"
  by (simp add: clamp_def)

lemma single_scale_clamp: "single_scale (clamp q 1 99) = single_scale q"
  by (simp add: single_scale_def clamp_idem)

lemma scale_clamp: "GetQualityFactorScale (clamp q 1 99) = GetQualityFactorScale q"
  by (simp add: scale_closed single_scale_clamp)

text \<open>
  Claim C1, as amended. For every integer quality, the two builders return the Annex-K
  base tables with each entry multiplied by the scale, rounded and saturated to
  \<open>[0,255]\<close>, where the quality is first clamped to \<open>[1,99]\<close> and every operation is
  carried out in single precision: the scale is \<open>fl (50 / q)\<close> below 50 and
  \<open>fl (2 - fl (2 * q / 100))\<close> from 50 on, and each product is rounded to single
  precision before it is rounded to an integer. Quality 0 gives the table of quality 1
  and quality 150 the table of quality 99.
\<close>

theorem tables_single_precision:
  "GetLumaQuantizationTable rm q =
     map (map (\<lambda>e. ConvertSat rm (fl (single_scale q * of_int (uint e))))) luma_base
   \<and> GetChromaQuantizationTable rm q =
     map (map (\<lambda>e. ConvertSat rm (fl (single_scale q * of_int (uint e))))) chroma_base
   \<and> GetLumaQuantizationTable rm q = GetLumaQuantizationTable rm (clamp q 1 99)
   \<and> GetChromaQuantizationTable rm q = GetChromaQuantizationTable rm (clamp q 1 99)
   \<and> GetLumaQuantizationTable rm 0 = GetLumaQuantizationTable rm 1
   \<and> GetLumaQuantizationTable rm 150 = GetLumaQuantizationTable rm 99"
proof -
  have c0: "clamp 0 1 99 = 1" and c150: "clamp 150 1 99 = 99" by (simp_all add: clamp_def)
  have "GetQualityFactorScale 0 = GetQualityFactorScale 1"
    using scale_clamp [of 0] by (simp add: c0)
  moreover have "GetQualityFactorScale 150 = GetQualityFactorScale 99"
    using scale_clamp [of 150] by (simp add: c150)
  ultimately show ?thesis
    unfolding GetLumaQuantizationTable_def GetChromaQuantizationTable_def
    by (simp add: table_closed [OF luma_base_shape] table_closed [OF chroma_base_shape]
        scale_clamp single_scale_clamp)
qed

text \<open>
  With exact arithmetic the formula gives another table: at quality 12 the base entry 57
  of row 2, column 5 scales to exactly 237.5, which rounds to 238 under either rule for
  ties, while the single-precision product is just below 237.5 and the source stores 237.
\<close>

theorem tables_exact_counterexample:
  "mat_get (GetLumaQuantizationTable HalfAway 12) 2 5 = 237
   \<and> mat_get (spec_table HalfAway luma_base 12) 2 5 = 238
   \<and> mat_get (GetLumaQuantizationTable HalfEven 12) 2 5 = 237
   \<and> mat_get (spec_table HalfEven luma_base 12) 2 5 = 238"
proof -
  have "ConvertSat HalfAway (fl (single_scale 12 * of_int (uint (mat_get luma_base 2 5)))) = 237"
    by code_simp
  then have 1: "mat_get (GetLumaQuantizationTable HalfAway 12) 2 5 = 237"
    using table_entry [OF luma_base_shape, of 2 5 HalfAway 12]
    by (simp add: GetLumaQuantizationTable_def)
  have "ConvertSat HalfEven (fl (single_scale 12 * of_int (uint (mat_get luma_base 2 5)))) = 237"
    by code_simp
  then have 2: "mat_get (GetLumaQuantizationTable HalfEven 12) 2 5 = 237"
    using table_entry [OF luma_base_shape, of 2 5 HalfEven 12]
    by (simp add: GetLumaQuantizationTable_def)
  have "ConvertSat HalfAway (spec_scale 12 * of_int (uint (mat_get luma_base 2 5))) = 238"
    by code_simp
  then have 3: "mat_get (spec_table HalfAway luma_base 12) 2 5 = 238"
    using spec_entry [of 2 5 HalfAway 12] by simp
  have "ConvertSat HalfEven (spec_scale 12 * of_int (uint (mat_get luma_base 2 5))) = 238"
    by code_simp
  then have 4: "mat_get (spec_table HalfEven luma_base 12) 2 5 = 238"
    using spec_entry [of 2 5 HalfEven 12] by simp
  from 1 2 3 4 show ?thesis by simp
qed

text \<open>
  Claim C7. For qualities \<open>q1 < q2\<close>, both in \<open>[1,99]\<close>, every entry of the luma table
  of \<open>q1\<close> is at least the corresponding entry of the luma table of \<open>q2\<close>, and the same
  holds for the chroma tables.
\<close>

theorem tables_monotone:
  assumes "1 \<le> q1" "q1 < q2" "q2 \<le> 99" "i < 8" "j < 8"
  shows "mat_get (GetLumaQuantizationTable rm q2) i j \<le> mat_get (GetLumaQuantizationTable rm q1) i j
       \<and> mat_get (GetChromaQuantizationTable rm q2) i j \<le> mat_get (GetChromaQuantizationTable rm q1) i j"
proof -
  have le: "q1 \<le> q2" using assms(2) by simp
  show ?thesis
    unfolding GetLumaQuantizationTable_def GetChromaQuantizationTable_def
      table_entry [OF luma_base_shape assms(4,5)] table_entry [OF chroma_base_shape assms(4,5)]
    by (intro conjI entry_antitone [OF assms(1) le assms(3)])
qed

theorem tables_monotone_witness:
  "mat_get (GetLumaQuantizationTable HalfAway 90) 0 0 \<le> mat_get (GetLumaQuantizationTable HalfAway 10) 0 0
   \<and> mat_get (GetChromaQuantizationTable HalfAway 90) 0 0 \<le> mat_get (GetChromaQuantizationTable HalfAway 10) 0 0"
  using tables_monotone [of 10 90 0 0 HalfAway] by simp

lemma base_entries_ge_10:
  "list_all (list_all (\<lambda>e. 10 \<le> uint e)) luma_base"
  "list_all (list_all (\<lambda>e. 10 \<le> uint e)) chroma_base"
  by (simp_all add: luma_base_def chroma_base_def)

lemma scale97_entry: "ConvertSat HalfAway (fl (single_scale 97 * 10)) = 1"
  "ConvertSat HalfEven (fl (single_scale 97 * 10)) = 1"
  by code_simp+

lemma single_scale_97_pos: "0 \<le> single_scale 97"
  by code_simp

lemma entry_ge_1:
  assumes "1 \<le> q" "q \<le> 97" "10 \<le> uint (e::u8)"
  shows "1 \<le> uint (ConvertSat rm (fl (single_scale q * of_int (uint e))))"
proof -
  have s: "single_scale 97 \<le> single_scale q"
    using assms by (intro single_scale_antitone) simp_all
  have e: "(10::rat) \<le> of_int (uint e)" using assms(3) by (metis of_int_le_iff of_int_numeral)
  have "single_scale 97 * 10 \<le> single_scale q * of_int (uint e)"
    using s e single_scale_97_pos by (intro mult_mono) simp_all
  then have "ConvertSat rm (fl (single_scale 97 * 10)) \<le>
             ConvertSat rm (fl (single_scale q * of_int (uint e)))"
    by (intro ConvertSat_mono fl_mono)
  moreover have "ConvertSat rm (fl (single_scale 97 * 10)) = 1"
    by (cases rm) (simp_all only: scale97_entry)
  ultimately show ?thesis by (simp add: word_le_def)
qed

text \<open>
  Claim C8, as amended. For every quality in \<open>[1,99]\<close> every entry of the two tables is
  at most 255, and for every quality in \<open>[1,97]\<close> every entry is at least 1.
\<close>

theorem tables_entry_range:
  assumes "1 \<le> q" "q \<le> 99" "i < 8" "j < 8"
  shows "unat (mat_get (GetLumaQuantizationTable rm q) i j) \<le> 255
       \<and> unat (mat_get (GetChromaQuantizationTable rm q) i j) \<le> 255
       \<and> (q \<le> 97 \<longrightarrow> 1 \<le> unat (mat_get (GetLumaQuantizationTable rm q) i j)
                    \<and> 1 \<le> unat (mat_get (GetChromaQuantizationTable rm q) i j))"
proof -
  have up: "unat w \<le> 255" for w :: u8
  proof -
    have "unat w < 2 ^ LENGTH(8)" by (rule unsigned_less)
    then show ?thesis by simp
  qed
  have lb: "10 \<le> uint (mat_get luma_base i j)" "10 \<le> uint (mat_get chroma_base i j)"
    using assms(3,4) base_entries_ge_10 luma_base_shape chroma_base_shape
    by (simp_all add: list_all_length mat_get_def)
  have nat1: "1 \<le> unat w" if "1 \<le> uint w" for w :: u8
  proof -
    have "uint w = int (unat w)" by simp
    with that show ?thesis by linarith
  qed
  have low: "1 \<le> uint (mat_get (GetLumaQuantizationTable rm q) i j)
      \<and> 1 \<le> uint (mat_get (GetChromaQuantizationTable rm q) i j)" if "q \<le> 97"
    unfolding GetLumaQuantizationTable_def GetChromaQuantizationTable_def
      table_entry [OF luma_base_shape assms(3,4)] table_entry [OF chroma_base_shape assms(3,4)]
    by (intro conjI entry_ge_1 [OF assms(1) that] lb)
  show ?thesis
  proof (intro conjI impI)
    show "unat (mat_get (GetLumaQuantizationTable rm q) i j) \<le> 255" by (rule up)
    show "unat (mat_get (GetChromaQuantizationTable rm q) i j) \<le> 255" by (rule up)
    show "1 \<le> unat (mat_get (GetLumaQuantizationTable rm q) i j)" if "q \<le> 97"
      using low [OF that] by (intro nat1) simp
    show "1 \<le> unat (mat_get (GetChromaQuantizationTable rm q) i j)" if "q \<le> 97"
      using low [OF that] by (intro nat1) simp
  qed
qed

theorem tables_entry_range_witness:
  "unat (mat_get (GetLumaQuantizationTable HalfEven 50) 0 2) \<le> 255
   \<and> unat (mat_get (GetChromaQuantizationTable HalfEven 50) 0 2) \<le> 255
   \<and> 1 \<le> unat (mat_get (GetLumaQuantizationTable HalfEven 50) 0 2)
   \<and> 1 \<le> unat (mat_get (GetChromaQuantizationTable HalfEven 50) 0 2)"
  using tables_entry_range [of 50 0 2 HalfEven] by simp

text \<open>
  At quality 98 and 99 the scale is 0.04 and 0.02, and base entries that scale below one
  half are stored as 0.
\<close>

theorem tables_zero_entry_counterexample:
  "mat_get (GetLumaQuantizationTable HalfAway 98) 0 2 = 0
   \<and> mat_get (GetLumaQuantizationTable HalfEven 98) 0 2 = 0
   \<and> mat_get (GetChromaQuantizationTable HalfAway 99) 0 0 = 0
   \<and> mat_get (GetChromaQuantizationTable HalfEven 99) 0 0 = 0"
proof -
  have "ConvertSat HalfAway (fl (single_scale 98 * of_int (uint (mat_get luma_base 0 2)))) = 0"
       "ConvertSat HalfEven (fl (single_scale 98 * of_int (uint (mat_get luma_base 0 2)))) = 0"
       "ConvertSat HalfAway (fl (single_scale 99 * of_int (uint (mat_get chroma_base 0 0)))) = 0"
       "ConvertSat HalfEven (fl (single_scale 99 * of_int (uint (mat_get chroma_base 0 0)))) = 0"
    by code_simp+
  then show ?thesis
    using table_entry [OF luma_base_shape, of 0 2 HalfAway 98]
      table_entry [OF luma_base_shape, of 0 2 HalfEven 98]
      table_entry [OF chroma_base_shape, of 0 0 HalfAway 99]
      table_entry [OF chroma_base_shape, of 0 0 HalfEven 99]
    by (simp add: GetLumaQuantizationTable_def GetChromaQuantizationTable_def)
qed

text \<open>
  Claim C10. A descriptor whose table members keep their default member initialisers
  carries the luma table of quality 95 and the chroma table of quality 95.
\<close>

theorem SampleDesc_default_tables:
  "luma_Q_table (SampleDesc_default rm i out sz st) = GetLumaQuantizationTable rm 95
   \<and> chroma_Q_table (SampleDesc_default rm i out sz st) = GetChromaQuantizationTable rm 95"
  by (simp add: SampleDesc_default_def)

section \<open>Averages and the subsampled pixel group\<close>

lemma fl_dyadic:
  assumes "\<bar>n\<bar> < 2 ^ 24" "k \<le> 149"
  shows "fl (of_int n / 2 ^ k) = of_int n / 2 ^ k"
proof (cases "n = 0")
  case True
  then show ?thesis by (simp add: fl_zero)
next
  case False
  define x where "x = rat_of_int \<bar>n\<bar> / 2 ^ k"
  have xpos: "0 < x" using False by (simp add: x_def)
  have ax: "\<bar>rat_of_int n / 2 ^ k\<bar> = x" by (simp add: x_def)
  have "rat_of_int \<bar>n\<bar> < of_int (2 ^ 24)" using assms(1) by (simp only: of_int_less_iff)
  then have "x < 2 ^ 24 / 2 ^ k" by (simp add: x_def divide_strict_right_mono)
  also have "\<dots> = 2 powi (24 - int k)" using p2_diff [of 24 "int k"] by simp
  finally have "2 powi bexp x < (2::rat) powi (24 - int k)" using bexp_bounds(1) [OF xpos] by simp
  then have "bexp x < 24 - int k" by (simp only: p2_less_iff)
  then have e: "ulp_exp (of_int n / 2 ^ k) \<le> - int k"
    unfolding ulp_exp_def ax using assms(2) by simp
  define m where "m = nat (- int k - ulp_exp (of_int n / 2 ^ k))"
  have "ulp_exp (of_int n / 2 ^ k) = - int k - int m" using e by (simp add: m_def)
  then have pk: "(2::rat) powi ulp_exp (of_int n / 2 ^ k) = 1 / (2 ^ k * 2 ^ m)"
    using p2_diff [of "- int k" "int m"] by (simp add: power_int_minus_divide)
  have "rat_of_int n / 2 ^ k / (1 / (2 ^ k * 2 ^ m)) = of_int (n * 2 ^ m)" by simp
  then have "rne (rat_of_int n / 2 ^ k / (1 / (2 ^ k * 2 ^ m))) = n * 2 ^ m" by (simp only: rne_of_int)
  then show ?thesis by (simp add: fl_def pk)
qed

lemma fl_half: "fl (1 / 2) = 1 / 2"
  using fl_dyadic [of 1 1] by simp

lemma fl_quarter: "fl (1 / 4) = 1 / 4"
  using fl_dyadic [of 1 2] by simp

lemma uint_u8_bounds: "0 \<le> uint (w::u8) \<and> uint w \<le> 255"
  using uint_bounded [of w] by simp

lemma avg4_elem_mean: "avg4_elem rm a b c d = mean_sat rm [a, b, c, d]"
proof -
  define s where "s = uint a + uint b + uint c + uint d"
  have s: "0 \<le> s \<and> s \<le> 1020"
    using uint_u8_bounds [of a] uint_u8_bounds [of b] uint_u8_bounds [of c] uint_u8_bounds [of d]
    by (simp add: s_def)
  then have s24: "\<bar>s\<bar> < 2 ^ 24" by simp
  have "fl (rat_of_int s / 2 ^ 2) = of_int s / 2 ^ 2" using s24 by (intro fl_dyadic) simp_all
  then have "fmul (int_to_float s) (fl (1 / 4)) = of_int s / 4"
    by (simp add: fmul_def int_to_float_exact [OF s24] fl_quarter)
  then have "avg4_elem rm a b c d = ConvertSat rm (of_int s / 4)"
    unfolding avg4_elem_def s_def [symmetric] by (simp only:)
  moreover have "mean_sat rm [a, b, c, d] = ConvertSat rm (of_int s / 4)"
    by (simp add: mean_sat_def s_def add.assoc)
  ultimately show ?thesis by (simp only:)
qed

lemma avg2_elem_mean: "avg2_elem rm a b = mean_sat rm [a, b]"
proof -
  define s where "s = uint a + uint b"
  have s: "0 \<le> s \<and> s \<le> 510"
    using uint_u8_bounds [of a] uint_u8_bounds [of b] by (simp add: s_def)
  then have s24: "\<bar>s\<bar> < 2 ^ 24" by simp
  have "fl (rat_of_int s / 2 ^ 1) = of_int s / 2 ^ 1" using s24 by (intro fl_dyadic) simp_all
  then have "fmul (int_to_float s) (fl (1 / 2)) = of_int s / 2"
    by (simp add: fmul_def int_to_float_exact [OF s24] fl_half)
  then have "avg2_elem rm a b = ConvertSat rm (of_int s / 2)"
    unfolding avg2_elem_def s_def [symmetric] by (simp only:)
  moreover have "mean_sat rm [a, b] = ConvertSat rm (of_int s / 2)"
    by (simp add: mean_sat_def s_def add.assoc)
  ultimately show ?thesis by (simp only:)
qed

lemma round_to_int_of_int: "round_to_int rm (of_int n) = n"
proof (cases rm)
  case HalfAway
  have "\<lfloor>rat_of_int n + 1 / 2\<rfloor> = n" by linarith
  moreover have "\<lfloor>- rat_of_int n + 1 / 2\<rfloor> = - n" by linarith
  ultimately show ?thesis unfolding HalfAway round_to_int.simps by simp
next
  case HalfEven
  then show ?thesis by (simp add: rne_of_int)
qed

lemma ConvertSat_of_u8: "ConvertSat rm (of_int (uint (a::u8))) = a"
proof -
  have "clamp (uint a) 0 255 = uint a" using uint_u8_bounds [of a] by (simp add: clamp_def)
  then show ?thesis unfolding ConvertSat_def round_to_int_of_int by simp
qed

lemma mean_sat_single: "mean_sat rm [a] = a"
  using ConvertSat_of_u8 [of rm a] by (simp add: mean_sat_def)

lemma sub_positions_cases:
  "sub_positions True True = [(0, 0, 0), (0, 1, 1), (1, 0, 2), (1, 1, 3)]"
  "sub_positions True False = [(0, 0, 0), (0, 1, 1)]"
  "sub_positions False True = [(0, 0, 0), (1, 0, 1)]"
  "sub_positions False False = [(0, 0, 0)]"
  by (simp_all add: sub_positions_def upt_rec)

lemma group_positions_cases:
  "group_positions True True (x, y) = [(x, y), (x + 1, y), (x, y + 1), (x + 1, y + 1)]"
  "group_positions True False (x, y) = [(x, y), (x + 1, y)]"
  "group_positions False True (x, y) = [(x, y), (x, y + 1)]"
  "group_positions False False (x, y) = [(x, y)]"
  by (simp_all add: group_positions_def sub_positions_cases)

lemma avg4_mean: "avg4 rm a b c d = mean_rgb rm [a, b, c, d]"
  by (cases a, cases b, cases c, cases d) (simp add: avg4_def mean_rgb_def avg4_elem_mean)

lemma avg2_mean: "avg2 rm a b = mean_rgb rm [a, b]"
  by (cases a, cases b) (simp add: avg2_def mean_rgb_def avg2_elem_mean)

lemma mean_rgb_single: "mean_rgb rm [a] = a"
  by (cases a) (simp add: mean_rgb_def mean_sat_single)

lemma add_i32_exact:
  assumes "- 2147483648 \<le> a + b" "a + b \<le> 2147483647"
  shows "add_i32 a b = a + b"
proof -
  have "add_i32 a b = sint (word_of_int (a + b) :: 32 word)"
    by (simp only: add_i32_def wi_hom_add)
  also have "\<dots> = signed_take_bit 31 (a + b)" by (simp only: sint_sbintrunc') simp
  also have "\<dots> = a + b" using assms by (intro signed_take_bit_int_eq_self) simp_all
  finally show ?thesis .
qed

lemma add_i32_wraps: "add_i32 2147483647 1 = - 2147483648"
  by (simp add: add_i32_def)

text \<open>
  Claim C6. For every anchor position whose group positions are representable (the
  anchor is a pair of 32-bit integers, below the largest one in a subsampled coordinate)
  the function samples the 1, 2 or 4 pixels of the group, each with border-clamped
  nearest-neighbour addressing; every sampled pixel gives its own luma by \<^verbatim>\<open>rgb_to_y\<close>,
  and the one shared (Cb, Cr) pair is computed from the arithmetic mean of the sampled
  pixels, rounded and saturated per channel.
\<close>

theorem rgb_to_ycbcr_subsampled_group:
  assumes "- 2147483648 \<le> x" "x \<le> 2147483647" "- 2147483648 \<le> y" "y \<le> 2147483647"
    and "hs \<Longrightarrow> x < 2147483647" "vs \<Longrightarrow> y < 2147483647"
  shows "rgb_to_ycbcr_subsampled hs vs rm (x, y) inp =
     (let sampled = map (sampler_nn_clamp inp) (group_positions hs vs (x, y))
      in \<lparr>luma = map (rgb_to_y rm) sampled,
          cb = rgb_to_cb rm (mean_rgb rm sampled),
          cr = rgb_to_cr rm (mean_rgb rm sampled)\<rparr>)
   \<and> length (group_positions hs vs (x, y)) = (1 + of_bool hs) * (1 + of_bool vs)
   \<and> sampler_nn_clamp inp (x, y) =
       (let p = (clamp x 0 (fst (surf_size inp) - 1), clamp y 0 (snd (surf_size inp) - 1))
        in (surf_at inp p 0, surf_at inp p 1, surf_at inp p 2))"
proof -
  have x1: "add_i32 x 1 = x + 1" if hs using assms(1) assms(5) [OF that] by (intro add_i32_exact) simp_all
  have y1: "add_i32 y 1 = y + 1" if vs using assms(3) assms(6) [OF that] by (intro add_i32_exact) simp_all
  show ?thesis
    using x1 y1
    by (cases hs; cases vs)
      (simp_all add: rgb_to_ycbcr_subsampled_def group_positions_cases Let_def rgb_to_cb_cr_def
        avg4_mean avg2_mean mean_rgb_single sampler_nn_clamp_def)
qed

section \<open>Writing a pixel group\<close>

lemma packed_offsets_apart_aux:
  assumes "packed_layout s" "in_bounds s (px, py)" "in_bounds s (qx, qy)" "py < qy"
  shows "surf_offset s (px, py) + 3 \<le> surf_offset s (qx, qy)"
proof -
  define sx where "sx = fst (surf_strides s)"
  define sy where "sy = snd (surf_strides s)"
  define w where "w = fst (surf_size s)"
  have sx: "3 \<le> sx" and sy: "w * sx \<le> sy"
    using assms(1) by (simp_all add: packed_layout_def sx_def sy_def w_def)
  have b: "0 \<le> px" "px < w" "0 \<le> qx" "qx < w"
    using assms(2,3) by (simp_all add: in_bounds_def w_def)
  have "0 \<le> w * sx" using b sx by simp
  then have sy0: "0 \<le> sy" using sy by simp
  have "1 * sy \<le> (qy - py) * sy" using assms(4) sy0 by (intro mult_right_mono) simp_all
  then have A: "sy \<le> (qy - py) * sy" by simp
  have B: "(- (w - 1)) * sx \<le> (qx - px) * sx" using b sx by (intro mult_right_mono) simp_all
  have "surf_offset s (qx, qy) - surf_offset s (px, py) = (qx - px) * sx + (qy - py) * sy"
    by (simp add: surf_offset_def sx_def sy_def algebra_simps)
  moreover have "(- (w - 1)) * sx + sy = sy - w * sx + sx" by (simp add: algebra_simps)
  ultimately show ?thesis using A B sx sy by linarith
qed

lemma packed_offsets_apart:
  assumes "packed_layout s" "in_bounds s p" "in_bounds s q" "p \<noteq> q"
  shows "3 \<le> \<bar>surf_offset s p - surf_offset s q\<bar>"
proof -
  obtain px py qx qy where p: "p = (px, py)" and q: "q = (qx, qy)" by (cases p, cases q) auto
  have "py < qy \<or> qy < py \<or> (py = qy \<and> px < qx) \<or> (py = qy \<and> qx < px)"
    using assms(4) p q by (auto simp: neq_iff)
  then consider "py < qy" | "qy < py" | "py = qy" "px < qx" | "py = qy" "qx < px"
    by blast
  then show ?thesis
  proof cases
    case 1
    then show ?thesis using packed_offsets_apart_aux [of s px py qx qy] assms p q by simp
  next
    case 2
    then show ?thesis using packed_offsets_apart_aux [of s qx qy px py] assms p q by simp
  next
    case 3
    have sx: "3 \<le> fst (surf_strides s)" using assms(1) by (simp add: packed_layout_def)
    have "1 * fst (surf_strides s) \<le> (qx - px) * fst (surf_strides s)"
      using 3 sx by (intro mult_right_mono) simp_all
    then show ?thesis using 3 sx p q by (simp add: surf_offset_def algebra_simps)
  next
    case 4
    have sx: "3 \<le> fst (surf_strides s)" using assms(1) by (simp add: packed_layout_def)
    have "1 * fst (surf_strides s) \<le> (px - qx) * fst (surf_strides s)"
      using 4 sx by (intro mult_right_mono) simp_all
    then show ?thesis using 4 sx p q by (simp add: surf_offset_def algebra_simps)
  qed
qed

lemma write_vec_geom:
  "surf_size (write_vec s p v) = surf_size s"
  "surf_strides (write_vec s p v) = surf_strides s"
  by (cases v; simp add: write_vec_def Let_def)+

lemma write_vec_in_bounds: "in_bounds (write_vec s p v) q = in_bounds s q"
  by (simp add: in_bounds_def write_vec_geom)

lemma write_vec_packed: "packed_layout (write_vec s p v) = packed_layout s"
  by (simp add: packed_layout_def write_vec_geom)

lemma write_vec_offset: "surf_offset (write_vec s p v) q = surf_offset s q"
  by (simp add: surf_offset_def write_vec_geom)

lemma write_vec_pixel_same:
  "in_bounds s p \<Longrightarrow> surf_pixel (write_vec s p v) p = v"
  by (cases v) (simp add: surf_pixel_def write_vec_offset Let_def, simp add: write_vec_def in_bounds_def Let_def)

lemma write_vec_pixel_other:
  assumes "packed_layout s" "in_bounds s q" "q \<noteq> p"
  shows "surf_pixel (write_vec s p v) q = surf_pixel s q"
proof (cases "in_bounds s p")
  case False
  then have "write_vec s p v = s" by (auto simp add: write_vec_def in_bounds_def)
  then show ?thesis by simp
next
  case True
  have "3 \<le> \<bar>surf_offset s q - surf_offset s p\<bar>"
    using assms True by (intro packed_offsets_apart) simp_all
  then show ?thesis
    by (cases v) (simp add: surf_pixel_def write_vec_offset Let_def, auto simp add: write_vec_def Let_def)
qed

lemma fold_write_vec_geom:
  "packed_layout (fold (\<lambda>(p, v) s. write_vec s p v) ws s) = packed_layout s"
  "in_bounds (fold (\<lambda>(p, v) s. write_vec s p v) ws s) q = in_bounds s q"
  by (induction ws arbitrary: s; simp add: write_vec_packed write_vec_in_bounds split: prod.splits)+







section \<open>Quantization in the kernel\<close>

lemma num_pages_pos: "0 < num_pages hs vs"
  by (simp add: num_pages_def)

lemma chroma_blocks_pos: "0 < chroma_blocks hs vs"
  by (simp add: chroma_blocks_def chroma_page_def vert_chroma_blocks_def horz_chroma_blocks_def
      num_pages_def)

lemma luma_page_ge: "8 \<le> luma_page hs vs"
  by (cases hs; cases vs)
    (simp_all add: luma_page_def vert_luma_blocks_def horz_luma_blocks_def
      vert_chroma_blocks_def horz_chroma_blocks_def)

lemma drop_bit3_push_ge:
  assumes "0 \<le> (n::int)"
  shows "drop_bit 3 n \<le> drop_bit 3 (push_bit (of_bool b) n)" "0 \<le> drop_bit 3 n"
proof -
  have "n \<le> push_bit (of_bool b) n" using assms by (cases b) (simp_all add: push_bit_eq_mult)
  then have "n div 8 \<le> push_bit (of_bool b) n div 8" by (intro zdiv_mono1) simp_all
  then show "drop_bit 3 n \<le> drop_bit 3 (push_bit (of_bool b) n)"
    by (simp add: drop_bit_eq_div)
  show "0 \<le> drop_bit 3 n" using assms by (simp add: drop_bit_eq_div)
qed

lemma luma_block_idx_ge:
  assumes "0 \<le> fst t" "0 \<le> snd t"
  shows "chroma_block_idx t \<le> luma_block_idx hs vs t"
proof -
  have h: "4 \<le> horz_luma_blocks hs"
    by (cases hs) (simp_all add: horz_luma_blocks_def horz_chroma_blocks_def)
  have a: "drop_bit 3 (snd t) \<le> drop_bit 3 (push_bit (of_bool vs) (snd t))"
    and a0: "0 \<le> drop_bit 3 (snd t)"
    using drop_bit3_push_ge [OF assms(2)] by simp_all
  have b: "drop_bit 3 (fst t) \<le> drop_bit 3 (push_bit (of_bool hs) (fst t))"
    using drop_bit3_push_ge [OF assms(1)] by simp
  have "drop_bit 3 (snd t) * 4 \<le> drop_bit 3 (push_bit (of_bool vs) (snd t)) * horz_luma_blocks hs"
    using a a0 h by (intro mult_mono) simp_all
  then show ?thesis using b
    by (simp add: chroma_block_idx_def luma_block_idx_def horz_chroma_blocks_def)
qed

lemma cb_cr_cell_neq: "cb_cell t page \<noteq> cr_cell hs vs t page"
  using chroma_blocks_pos [of hs vs] by (simp add: cb_cell_def cr_cell_def)

lemma luma_block_gt:
  assumes "0 \<le> fst t" "0 \<le> snd t" "0 \<le> page"
  shows "chroma_blocks hs vs + chroma_block_idx t + page * chroma_page
         < chroma_blocks hs vs * 2 + luma_block_idx hs vs t + page * luma_page hs vs"
proof -
  have "page * 8 \<le> page * luma_page hs vs" using assms(3) luma_page_ge by (intro mult_left_mono)
  then show ?thesis
    using luma_block_idx_ge [OF assms(1,2), of hs vs] chroma_blocks_pos [of hs vs]
    by (simp add: chroma_page_def vert_chroma_blocks_def horz_chroma_blocks_def)
qed

lemma luma_cell_neq_chroma:
  assumes "0 \<le> fst t" "0 \<le> snd t" "0 \<le> page"
  shows "luma_cell hs vs t page i j \<noteq> cb_cell t page"
    and "luma_cell hs vs t page i j \<noteq> cr_cell hs vs t page"
  using luma_block_gt [OF assms, of hs vs] chroma_blocks_pos [of hs vs]
  by (simp_all add: luma_cell_def cb_cell_def cr_cell_def)

lemma luma_cell_inj:
  "luma_cell hs vs t page i j = luma_cell hs vs t page i' j' \<longleftrightarrow> i = i' \<and> j = j'"
  by (simp add: luma_cell_def)

lemma cell_q_chroma:
  "cell_q (chroma_Q_table sample) (cb_cell t page) = chroma_q sample t"
  "cell_q (chroma_Q_table sample) (cr_cell hs vs t page) = chroma_q sample t"
  by (simp_all add: cell_q_def chroma_q_def cb_cell_def cr_cell_def)

lemma cell_q_luma:
  "cell_q (luma_Q_table sample) (luma_cell hs vs t page i j) = luma_q hs vs sample t i j"
  by (simp add: cell_q_def luma_q_def luma_cell_def)

lemma quantize_page_cells:
  assumes "0 \<le> fst t" "0 \<le> snd t" "0 \<le> page"
  shows "quantize_page hs vs sample t page S (cb_cell t page)
           = quantize (S (cb_cell t page)) (cell_q (chroma_Q_table sample) (cb_cell t page))"
    and "quantize_page hs vs sample t page S (cr_cell hs vs t page)
           = quantize (S (cr_cell hs vs t page)) (cell_q (chroma_Q_table sample) (cr_cell hs vs t page))"
    and "(i, j, k) \<in> set (sub_positions hs vs) \<Longrightarrow>
         quantize_page hs vs sample t page S (luma_cell hs vs t page i j)
           = quantize (S (luma_cell hs vs t page i j))
               (cell_q (luma_Q_table sample) (luma_cell hs vs t page i j))"
  using luma_cell_neq_chroma [OF assms, of hs vs] cb_cr_cell_neq [of t page hs vs]
  by (cases hs; cases vs;
      simp add: quantize_page_def Let_def sub_positions_cases cell_q_chroma cell_q_luma
        luma_cell_inj; metis)+

lemma quantize_closed:
  "quantize v Q =
     (let Q' = (if Q < 1 then 1 else Q)
      in fl (Q' * of_int (round_to_int HalfAway (fl (v * fl (1 / Q'))))))"
  by (simp add: quantize_def Let_def fmul_def roundf_def frcp_rn_def)

text \<open>
  The integer is not always the one nearest to \<open>v / Q'\<close>: for the single-precision value
  \<open>v = 7.5 - 2 ^ -21\<close> and the table entry 3, \<open>v / 3\<close> is below 2.5 and the nearest
  multiple of 3 is 6, but the product with the rounded reciprocal rounds to 2.5 and the
  source returns 9.
\<close>

theorem quantize_exact_counterexample:
  "fl (15728639 / 2097152) = 15728639 / 2097152
   \<and> u8_to_float 3 = 3
   \<and> quantize (15728639 / 2097152) 3 = 9
   \<and> spec_quantize HalfAway (15728639 / 2097152) 3 = 6
   \<and> spec_quantize HalfEven (15728639 / 2097152) 3 = 6"
proof -
  have v: "fl (15728639 / 2097152) = 15728639 / 2097152" by code_simp
  have q: "u8_to_float 3 = 3" by code_simp
  have e1: "fl (1 / 3) = 11184811 / 33554432" by code_simp
  have e2: "fl (15728639 / 2097152 * (11184811 / 33554432)) = 5 / 2" by code_simp
  have e3: "round_to_int HalfAway (5 / 2) = 3" by code_simp
  have e4: "fl (3 * of_int 3) = 9" by code_simp
  have c: "(if (3::rat) < 1 then 1 else 3) = 3" by simp
  have "quantize (15728639 / 2097152) 3 = 9"
    unfolding quantize_closed Let_def by (simp only: c e1 e2 e3 e4)
  moreover have "spec_quantize HalfAway (15728639 / 2097152) 3 = 6" by code_simp
  moreover have "spec_quantize HalfEven (15728639 / 2097152) 3 = 6" by code_simp
  ultimately show ?thesis using v q by simp
qed

section \<open>The kernel writes inside the image only\<close>

lemma same_outside_refl: "same_outside s s"
  by (simp add: same_outside_def)

lemma in_image_geom:
  "surf_size s = surf_size s0 \<Longrightarrow> surf_strides s = surf_strides s0 \<Longrightarrow> in_image s a = in_image s0 a"
  by (simp add: in_image_def surf_offset_def)

lemma write_vec_outside:
  assumes "\<not> in_image s a"
  shows "surf_data (write_vec s p v) a = surf_data s a"
proof (cases "in_bounds s p")
  case False
  then have "write_vec s p v = s" by (auto simp add: write_vec_def in_bounds_def)
  then show ?thesis by simp
next
  case True
  obtain x y where p: "p = (x, y)" by (cases p)
  have xy: "x \<in> {0..<fst (surf_size s)}" "y \<in> {0..<snd (surf_size s)}"
    using True p by (simp_all add: in_bounds_def)
  have ne: "a \<noteq> surf_offset s p + c" if "c \<in> {0..<3}" for c
    using assms xy that p unfolding in_image_def by blast
  have "a \<noteq> surf_offset s p" "a \<noteq> surf_offset s p + 1" "a \<noteq> surf_offset s p + 2"
    using ne [of 0] ne [of 1] ne [of 2] by simp_all
  then show ?thesis by (cases v) (simp add: write_vec_def Let_def)
qed

lemma write_vec_same_outside:
  assumes "same_outside s0 s"
  shows "same_outside s0 (write_vec s p v)"
proof -
  have g: "surf_size s = surf_size s0" "surf_strides s = surf_strides s0"
    using assms by (simp_all add: same_outside_def)
  have "surf_data (write_vec s p v) a = surf_data s0 a" if "\<not> in_image s0 a" for a
  proof -
    have "\<not> in_image s a" using that in_image_geom [OF g] by simp
    then have "surf_data (write_vec s p v) a = surf_data s a" by (rule write_vec_outside)
    then show ?thesis using assms that by (simp add: same_outside_def)
  qed
  then show ?thesis using g by (simp add: same_outside_def write_vec_geom)
qed

lemma ycbcr_to_rgb_subsampled_same_outside:
  assumes "same_outside s0 s"
  shows "same_outside s0 (ycbcr_to_rgb_subsampled hs vs rm offset s ycbcr)"
  using assms
  by (simp add: ycbcr_to_rgb_subsampled_def Let_def write_vec_same_outside)

lemma write_page_same_outside:
  assumes "same_outside s0 s"
  shows "same_outside s0 (write_page hs vs rm sample blk_pos S t page s)"
  using assms
  by (simp add: write_page_def Let_def ycbcr_to_rgb_subsampled_same_outside)

lemma fold_same_outside:
  assumes "\<And>x s. same_outside s0 s \<Longrightarrow> same_outside s0 (f x s)" "same_outside s0 s"
  shows "same_outside s0 (fold f xs s)"
  using assms(2) by (induction xs arbitrary: s) (simp_all add: assms(1))

lemma phase_write_same_outside:
  assumes "same_outside s0 s"
  shows "same_outside s0 (phase_write hs vs rm sample blockDim blk_pos S s)"
  unfolding phase_write_def
  by (intro fold_same_outside write_page_same_outside assms)

lemma tile_iteration_same_outside:
  assumes "same_outside s0 (snd st)"
  shows "same_outside s0 (snd (tile_iteration hs vs q rm dct sample inp blockDim blk_pos st))"
  using assms by (simp add: tile_iteration_def Let_def phase_write_same_outside)

lemma fold_snd_same_outside:
  assumes "\<And>x st. same_outside s0 (snd st) \<Longrightarrow> same_outside s0 (snd (f x st))"
    and "same_outside s0 (snd st)"
  shows "same_outside s0 (snd (fold f xs st))"
  using assms(2) by (induction xs arbitrary: st) (simp_all add: assms(1))

lemma kernel_same_outside:
  "same_outside (out_surface sample)
     (snd (JpegCompressionDistortion hs vs q rm dct blockDim sample block flat_blocks))"
proof -
  have base: "same_outside (out_surface sample) (snd (flat_blocks, out_surface sample))"
    by (simp add: same_outside_refl)
  show ?thesis
    unfolding JpegCompressionDistortion_def Let_def
    by (rule fold_snd_same_outside [OF _ base], rule fold_snd_same_outside,
        rule tile_iteration_same_outside)
qed

lemma write_page_skipped:
  assumes "fst (img_size sample) \<le> fst (group_offset hs vs blk_pos t page)
         \<or> snd (img_size sample) \<le> snd (group_offset hs vs blk_pos t page)"
  shows "write_page hs vs rm sample blk_pos S t page out = out"
  using assms by (auto simp add: write_page_def Let_def)

text \<open>
  Claim C4. Whatever the tile, the kernel leaves every element of the output buffer that
  does not belong to a pixel inside the declared dimensions as it was; a pixel group
  whose anchor is at or beyond the image size in a coordinate is skipped, and a single
  pixel write outside the image changes nothing.
\<close>

theorem kernel_writes_inside_image:
  "(\<not> in_image (out_surface sample) a \<longrightarrow>
      surf_data (snd (JpegCompressionDistortion hs vs q rm dct blockDim sample block flat_blocks)) a
        = out_data sample a)
   \<and> (fst (img_size sample) \<le> fst (group_offset hs vs blk_pos t page)
        \<or> snd (img_size sample) \<le> snd (group_offset hs vs blk_pos t page) \<longrightarrow>
      write_page hs vs rm sample blk_pos S t page out = out)
   \<and> (\<not> in_bounds out pos \<longrightarrow> write_vec out pos v = out)"
proof -
  have "\<not> in_bounds out pos \<longrightarrow> write_vec out pos v = out"
    by (auto simp add: write_vec_def in_bounds_def)
  then show ?thesis
    using kernel_same_outside [of sample hs vs q rm dct blockDim block flat_blocks]
      write_page_skipped [of sample hs vs blk_pos t page rm S out]
    by (simp add: same_outside_def out_surface_def)
qed

section \<open>A flat gray image\<close>

lemma and7: "(x::int) AND 7 = x mod 8"
proof -
  have "x AND mask 3 = x mod 2 ^ 3" by (simp only: take_bit_eq_mask [symmetric] take_bit_eq_mod)
  then show ?thesis by (simp add: mask_eq_exp_minus_1)
qed

lemma drop3: "drop_bit 3 (x::int) = x div 8"
  by (simp add: drop_bit_eq_div)

lemma set_threads:
  "set (threads bd) = {(tx, ty). 0 \<le> tx \<and> tx < fst bd \<and> 0 \<le> ty \<and> ty < snd bd}"
  by (auto simp: threads_def)

lemma set_pages: "set (pages hs vs) = {0..<num_pages hs vs}"
  by (auto simp: pages_def)

lemma total_blocks_FF: "total_blocks False False = 96" "chroma_blocks False False = 32"
  "luma_page False False = 8" "chroma_page = 8" "num_pages False False = 4"
  by (simp_all add: total_blocks_def chroma_blocks_def luma_blocks_def luma_page_def
      chroma_page_def num_pages_def vert_luma_blocks_def horz_luma_blocks_def
      vert_chroma_blocks_def horz_chroma_blocks_def)

lemma cells_FF:
  "cb_cell (tx, ty) page = (ty div 8 * 4 + tx div 8 + page * 8, ty mod 8, tx mod 8)"
  "cr_cell False False (tx, ty) page = (32 + (ty div 8 * 4 + tx div 8) + page * 8, ty mod 8, tx mod 8)"
  "luma_cell False False (tx, ty) page 0 0 = (64 + (ty div 8 * 4 + tx div 8) + page * 8, ty mod 8, tx mod 8)"
  by (simp_all add: cb_cell_def cr_cell_def luma_cell_def chroma_block_idx_def luma_block_idx_def
      chroma_x_def chroma_y_def luma_x_def luma_y_def and7 drop3 total_blocks_FF
      horz_chroma_blocks_def horz_luma_blocks_def)

lemma fsub_128: "fsub (u8_to_float 128) 128 = 0"
  by (simp add: fsub_def u8_to_float_exact fl_zero)

lemma gray_sampler:
  assumes "flat_gray sample" "0 < fst (img_size sample)" "0 < snd (img_size sample)"
  shows "sampler_nn_clamp (in_surface sample) p = (128, 128, 128)"
proof -
  define q where "q = (clamp (fst p) 0 (fst (img_size sample) - 1),
                       clamp (snd p) 0 (snd (img_size sample) - 1))"
  have qx: "fst q \<in> {0..<fst (img_size sample)}" and qy: "snd q \<in> {0..<snd (img_size sample)}"
    using assms(2,3) by (simp_all add: q_def clamp_def)
  have "in_data sample (surf_offset (in_surface sample) q + c) = 128" if "c \<in> {0..<3}" for c
    using assms(1) qx qy that unfolding flat_gray_def by (cases q) auto
  from this [of 0] this [of 1] this [of 2]
  have "surf_at (in_surface sample) q 0 = 128" "surf_at (in_surface sample) q 1 = 128"
    "surf_at (in_surface sample) q 2 = 128"
    by (simp_all add: surf_at_def in_surface_def surf_offset_def)
  then show ?thesis
    unfolding sampler_nn_clamp_def Let_def q_def [symmetric]
    by (simp add: q_def in_surface_def)
qed

lemma gray_y_away: "rgb_to_y HalfAway (128, 128, 128) = 128"
proof -
  have e0: "fl (299 / 1000) = 10032775 / 33554432" by code_simp
  have e1: "fl (587 / 1000) = 4924113 / 8388608" by code_simp
  have e2: "fl (114 / 1000) = 15300821 / 134217728" by code_simp
  have e3: "fmul (10032775 / 33554432) (u8_to_float 128) = 10032775 / 262144" by code_simp
  have e4: "fmul (4924113 / 8388608) (u8_to_float 128) = 4924113 / 65536" by code_simp
  have e5: "fmul (15300821 / 134217728) (u8_to_float 128) = 15300821 / 1048576" by code_simp
  have e6: "fadd (10032775 / 262144) (4924113 / 65536) = 7432307 / 65536" by code_simp
  have e7: "fadd (7432307 / 65536) (15300821 / 1048576) = 128" by code_simp
  have e8: "ConvertSat HalfAway 128 = 128" by code_simp
  show ?thesis unfolding rgb_to_y_def
    by (simp only: e0 e1 e2 e3 e4 e5 e6 e7 e8 prod.case Let_def)
qed

lemma gray_cb_away: "rgb_to_cb HalfAway (128, 128, 128) = 128"
proof -
  have e0: "fl (16873589 / 100000000) = 5661837 / 33554432" by code_simp
  have e1: "fl (33126411 / 100000000) = 11115379 / 33554432" by code_simp
  have e2: "fl (1 / 2) = 1 / 2" by code_simp
  have e3: "fmul (- (5661837 / 33554432)) (u8_to_float 128) = - (5661837 / 262144)" by code_simp
  have e4: "fmul (11115379 / 33554432) (u8_to_float 128) = 11115379 / 262144" by code_simp
  have e5: "fmul (1 / 2) (u8_to_float 128) = 64" by code_simp
  have e6: "fsub (- (5661837 / 262144)) (11115379 / 262144) = - 64" by code_simp
  have e7: "fadd (- 64) 64 = 0" by code_simp
  have e8: "fadd 0 128 = 128" by code_simp
  have e9: "ConvertSat HalfAway 128 = 128" by code_simp
  show ?thesis unfolding rgb_to_cb_def
    by (simp only: e0 e1 e2 e3 e4 e5 e6 e7 e8 e9 prod.case Let_def)
qed

lemma gray_cr_away: "rgb_to_cr HalfAway (128, 128, 128) = 128"
proof -
  have e0: "fl (1 / 2) = 1 / 2" by code_simp
  have e1: "fl (41868759 / 100000000) = 1756103 / 4194304" by code_simp
  have e2: "fl (8131241 / 100000000) = 10913567 / 134217728" by code_simp
  have e3: "fmul (1 / 2) (u8_to_float 128) = 64" by code_simp
  have e4: "fmul (1756103 / 4194304) (u8_to_float 128) = 1756103 / 32768" by code_simp
  have e5: "fmul (10913567 / 134217728) (u8_to_float 128) = 10913567 / 1048576" by code_simp
  have e6: "fsub 64 (1756103 / 32768) = 341049 / 32768" by code_simp
  have e7: "fsub (341049 / 32768) (10913567 / 1048576) = 1 / 1048576" by code_simp
  have e8: "fadd (1 / 1048576) 128 = 128" by code_simp
  have e9: "ConvertSat HalfAway 128 = 128" by code_simp
  show ?thesis unfolding rgb_to_cr_def
    by (simp only: e0 e1 e2 e3 e4 e5 e6 e7 e8 e9 prod.case Let_def)
qed

lemma gray_rgb_away: "ycbcr_to_rgb HalfAway (128, 128, 128) = (128, 128, 128)"
proof -
  have e0: "u8_to_float 128 = 128" by code_simp
  have e1: "fsub 128 128 = 0" by code_simp
  have e2: "fl (1402 / 1000) = 2940207 / 2097152" by code_simp
  have e3: "fl (34413629 / 100000000) = 5773649 / 16777216" by code_simp
  have e4: "fl (71413629 / 100000000) = 11981219 / 16777216" by code_simp
  have e5: "fl (1772 / 1000) = 14864613 / 8388608" by code_simp
  have e6: "fmul (2940207 / 2097152) 0 = 0" by code_simp
  have e7: "fadd 128 0 = 128" by code_simp
  have e8: "ConvertSat HalfAway 128 = 128" by code_simp
  have e9: "fmul (5773649 / 16777216) 0 = 0" by code_simp
  have e10: "fsub 128 0 = 128" by code_simp
  have e11: "fmul (11981219 / 16777216) 0 = 0" by code_simp
  have e12: "fmul (14864613 / 8388608) 0 = 0" by code_simp
  show ?thesis unfolding ycbcr_to_rgb_def
    by (simp only: e0 e1 e2 e3 e4 e5 e6 e7 e8 e9 e10 e11 e12 prod.case Let_def)
qed

lemma gray_y_even: "rgb_to_y HalfEven (128, 128, 128) = 128"
proof -
  have e0: "fl (299 / 1000) = 10032775 / 33554432" by code_simp
  have e1: "fl (587 / 1000) = 4924113 / 8388608" by code_simp
  have e2: "fl (114 / 1000) = 15300821 / 134217728" by code_simp
  have e3: "fmul (10032775 / 33554432) (u8_to_float 128) = 10032775 / 262144" by code_simp
  have e4: "fmul (4924113 / 8388608) (u8_to_float 128) = 4924113 / 65536" by code_simp
  have e5: "fmul (15300821 / 134217728) (u8_to_float 128) = 15300821 / 1048576" by code_simp
  have e6: "fadd (10032775 / 262144) (4924113 / 65536) = 7432307 / 65536" by code_simp
  have e7: "fadd (7432307 / 65536) (15300821 / 1048576) = 128" by code_simp
  have e8: "ConvertSat HalfEven 128 = 128" by code_simp
  show ?thesis unfolding rgb_to_y_def
    by (simp only: e0 e1 e2 e3 e4 e5 e6 e7 e8 prod.case Let_def)
qed

lemma gray_cb_even: "rgb_to_cb HalfEven (128, 128, 128) = 128"
proof -
  have e0: "fl (16873589 / 100000000) = 5661837 / 33554432" by code_simp
  have e1: "fl (33126411 / 100000000) = 11115379 / 33554432" by code_simp
  have e2: "fl (1 / 2) = 1 / 2" by code_simp
  have e3: "fmul (- (5661837 / 33554432)) (u8_to_float 128) = - (5661837 / 262144)" by code_simp
  have e4: "fmul (11115379 / 33554432) (u8_to_float 128) = 11115379 / 262144" by code_simp
  have e5: "fmul (1 / 2) (u8_to_float 128) = 64" by code_simp
  have e6: "fsub (- (5661837 / 262144)) (11115379 / 262144) = - 64" by code_simp
  have e7: "fadd (- 64) 64 = 0" by code_simp
  have e8: "fadd 0 128 = 128" by code_simp
  have e9: "ConvertSat HalfEven 128 = 128" by code_simp
  show ?thesis unfolding rgb_to_cb_def
    by (simp only: e0 e1 e2 e3 e4 e5 e6 e7 e8 e9 prod.case Let_def)
qed

lemma gray_cr_even: "rgb_to_cr HalfEven (128, 128, 128) = 128"
proof -
  have e0: "fl (1 / 2) = 1 / 2" by code_simp
  have e1: "fl (41868759 / 100000000) = 1756103 / 4194304" by code_simp
  have e2: "fl (8131241 / 100000000) = 10913567 / 134217728" by code_simp
  have e3: "fmul (1 / 2) (u8_to_float 128) = 64" by code_simp
  have e4: "fmul (1756103 / 4194304) (u8_to_float 128) = 1756103 / 32768" by code_simp
  have e5: "fmul (10913567 / 134217728) (u8_to_float 128) = 10913567 / 1048576" by code_simp
  have e6: "fsub 64 (1756103 / 32768) = 341049 / 32768" by code_simp
  have e7: "fsub (341049 / 32768) (10913567 / 1048576) = 1 / 1048576" by code_simp
  have e8: "fadd (1 / 1048576) 128 = 128" by code_simp
  have e9: "ConvertSat HalfEven 128 = 128" by code_simp
  show ?thesis unfolding rgb_to_cr_def
    by (simp only: e0 e1 e2 e3 e4 e5 e6 e7 e8 e9 prod.case Let_def)
qed

lemma gray_rgb_even: "ycbcr_to_rgb HalfEven (128, 128, 128) = (128, 128, 128)"
proof -
  have e0: "u8_to_float 128 = 128" by code_simp
  have e1: "fsub 128 128 = 0" by code_simp
  have e2: "fl (1402 / 1000) = 2940207 / 2097152" by code_simp
  have e3: "fl (34413629 / 100000000) = 5773649 / 16777216" by code_simp
  have e4: "fl (71413629 / 100000000) = 11981219 / 16777216" by code_simp
  have e5: "fl (1772 / 1000) = 14864613 / 8388608" by code_simp
  have e6: "fmul (2940207 / 2097152) 0 = 0" by code_simp
  have e7: "fadd 128 0 = 128" by code_simp
  have e8: "ConvertSat HalfEven 128 = 128" by code_simp
  have e9: "fmul (5773649 / 16777216) 0 = 0" by code_simp
  have e10: "fsub 128 0 = 128" by code_simp
  have e11: "fmul (11981219 / 16777216) 0 = 0" by code_simp
  have e12: "fmul (14864613 / 8388608) 0 = 0" by code_simp
  show ?thesis unfolding ycbcr_to_rgb_def
    by (simp only: e0 e1 e2 e3 e4 e5 e6 e7 e8 e9 e10 e11 e12 prod.case Let_def)
qed

lemma gray_ycbcr:
  "rgb_to_y rm (128, 128, 128) = 128" "rgb_to_cb rm (128, 128, 128) = 128"
  "rgb_to_cr rm (128, 128, 128) = 128"
  "ycbcr_to_rgb rm (128, 128, 128) = (128, 128, 128)"
  by (cases rm; simp only: gray_y_away gray_cb_away gray_cr_away gray_rgb_away
      gray_y_even gray_cb_even gray_cr_even gray_rgb_even)+

lemma gray_group:
  assumes "flat_gray sample" "0 < fst (img_size sample)" "0 < snd (img_size sample)"
  shows "rgb_to_ycbcr_subsampled False False rm p (in_surface sample)
         = \<lparr>luma = [128], cb = 128, cr = 128\<rparr>"
  by (simp add: rgb_to_ycbcr_subsampled_def Let_def gray_sampler [OF assms] gray_ycbcr
      rgb_to_cb_cr_def)

lemma load_page_gray:
  assumes "flat_gray sample" "0 < fst (img_size sample)" "0 < snd (img_size sample)"
  shows "load_page False False rm (in_surface sample) blk_pos t page S
         = (\<lambda>c. if c \<in> gray_cells t page then 0 else S c)"
  by (rule ext)
    (simp add: load_page_def Let_def gray_group [OF assms] sub_positions_cases fsub_128
      gray_cells_def)

lemma fold_zero:
  assumes "\<And>x S. f x S = (\<lambda>c. if c \<in> W x then 0 else S c)"
  shows "fold f xs S = (\<lambda>c. if \<exists>x\<in>set xs. c \<in> W x then (0::rat) else S c)"
proof (induction xs arbitrary: S)
  case Nil
  then show ?case by simp
next
  case (Cons a xs)
  have "fold f (a # xs) S = fold f xs (f a S)" by simp
  also have "\<dots> = (\<lambda>c. if \<exists>x\<in>set xs. c \<in> W x then 0 else f a S c)" by (rule Cons.IH)
  also have "\<dots> = (\<lambda>c. if \<exists>x\<in>set (a # xs). c \<in> W x then 0 else S c)"
    by (rule ext) (simp add: assms)
  finally show ?case .
qed

lemma phase_load_gray:
  assumes "flat_gray sample" "0 < fst (img_size sample)" "0 < snd (img_size sample)"
  shows "phase_load False False rm (in_surface sample) blockDim blk_pos S
         = (\<lambda>c. if \<exists>t\<in>set (threads blockDim). \<exists>page\<in>set (pages False False).
                      c \<in> gray_cells t page then 0 else S c)"
proof -
  have inner: "fold (\<lambda>page S. load_page False False rm (in_surface sample) blk_pos t page S)
                 (pages False False) S
               = (\<lambda>c. if c \<in> {c. \<exists>page\<in>set (pages False False). c \<in> gray_cells t page}
                       then 0 else S c)" for t S
    using fold_zero [of "\<lambda>page S. load_page False False rm (in_surface sample) blk_pos t page S"
        "gray_cells t" "pages False False" S]
    by (simp add: load_page_gray [OF assms])
  show ?thesis
    unfolding phase_load_def
    using fold_zero [of "\<lambda>t S. fold (\<lambda>page S. load_page False False rm (in_surface sample)
            blk_pos t page S) (pages False False) S"
        "\<lambda>t. {c. \<exists>page\<in>set (pages False False). c \<in> gray_cells t page}"
        "threads blockDim" S, OF inner]
    by simp
qed

lemma live_cell_covered:
  assumes "live_cell False False cell"
  shows "\<exists>t\<in>set (threads (32, 16)). \<exists>page\<in>set (pages False False). cell \<in> gray_cells t page"
proof -
  obtain b r c where cell: "cell = (b, r, c)" by (cases cell)
  have bnd: "0 \<le> b" "b < 96" "0 \<le> r" "r < 8" "0 \<le> c" "c < 8"
    using assms by (simp_all add: live_cell_def cell total_blocks_FF)
  define b' where "b' = b mod 32"
  define page where "page = b' div 8"
  define blk where "blk = b' mod 8"
  define tx where "tx = (blk mod 4) * 8 + c"
  define ty where "ty = (blk div 4) * 8 + r"
  have b'r: "0 \<le> b'" "b' < 32" by (simp_all add: b'_def)
  have pr: "0 \<le> page" "page < 4" using b'r by (simp_all add: page_def)
  have br: "0 \<le> blk" "blk < 8" by (simp_all add: blk_def)
  have txr: "0 \<le> tx" "tx < 32" using bnd by (simp_all add: tx_def)
  have "blk div 4 \<le> 1" using br by presburger
  then have tyr: "0 \<le> ty" "ty < 16" using bnd br by (simp_all add: ty_def)
  have t: "(tx, ty) \<in> set (threads (32, 16))" using txr tyr by (simp add: set_threads)
  have p: "page \<in> set (pages False False)" using pr by (simp add: set_pages total_blocks_FF)
  have d: "tx div 8 = blk mod 4" "tx mod 8 = c" "ty div 8 = blk div 4" "ty mod 8 = r"
    using bnd by (simp_all add: tx_def ty_def)
  have idx: "ty div 8 * 4 + tx div 8 + page * 8 = b'"
    using b'r by (simp add: d blk_def page_def)
  have "b = b' \<or> b = 32 + b' \<or> b = 64 + b'"
    using bnd by (simp add: b'_def) presburger
  then have "cell \<in> gray_cells (tx, ty) page"
    using idx d by (auto simp add: gray_cells_def cells_FF cell)
  then show ?thesis using t p by blast
qed

lemma phase_load_gray_live_zero:
  assumes "flat_gray sample" "0 < fst (img_size sample)" "0 < snd (img_size sample)"
  shows "live_zero False False (phase_load False False rm (in_surface sample) (32, 16) blk_pos S)"
  unfolding live_zero_def phase_load_gray [OF assms]
  using live_cell_covered by simp

lemma live_zero_upd:
  assumes "live_zero hs vs S" "live_cell hs vs cell \<Longrightarrow> v = 0"
  shows "live_zero hs vs (S(cell := v))"
  using assms by (auto simp add: live_zero_def)

lemma dct_row_live_zero:
  assumes "dct_zero_preserving f" "live_zero hs vs S"
  shows "live_zero hs vs (dct_row f s S)"
  unfolding live_zero_def
proof (intro allI impI)
  fix cell assume live: "live_cell hs vs cell"
  obtain b r c where cell: "cell = (b, r, c)" by (cases cell)
  show "dct_row f s S cell = 0"
  proof (cases "b = drop_bit 3 s \<and> r = s AND 7")
    case True
    have "\<forall>k\<in>{0..<8}. S (b, r, k) = 0"
      using live assms(2) by (auto simp add: live_zero_def live_cell_def cell)
    moreover have Z: "(\<forall>k\<in>{0..<8}. g k = 0) \<longrightarrow> (\<forall>k\<in>{0..<8}. f g k = 0)" for g
      using assms(1) unfolding dct_zero_preserving_def by (rule spec)
    ultimately have "\<forall>k\<in>{0..<8}. f (\<lambda>k. S (b, r, k)) k = 0"
      using Z [of "\<lambda>k. S (b, r, k)"] by simp
    moreover have "c \<in> {0..<8}" using live by (simp add: live_cell_def cell)
    ultimately show ?thesis using True by (simp add: dct_row_def Let_def cell)
  next
    case False
    then have "dct_row f s S cell = S cell" by (auto simp add: dct_row_def Let_def cell)
    moreover have "S cell = 0" using live assms(2) unfolding live_zero_def by blast
    ultimately show ?thesis by simp
  qed
qed

lemma dct_col_live_zero:
  assumes "dct_zero_preserving f" "live_zero hs vs S"
  shows "live_zero hs vs (dct_col f s S)"
  unfolding live_zero_def
proof (intro allI impI)
  fix cell assume live: "live_cell hs vs cell"
  obtain b r c where cell: "cell = (b, r, c)" by (cases cell)
  show "dct_col f s S cell = 0"
  proof (cases "b = drop_bit 3 s \<and> c = s AND 7")
    case True
    have "\<forall>k\<in>{0..<8}. S (b, k, c) = 0"
      using live assms(2) by (auto simp add: live_zero_def live_cell_def cell)
    moreover have Z: "(\<forall>k\<in>{0..<8}. g k = 0) \<longrightarrow> (\<forall>k\<in>{0..<8}. f g k = 0)" for g
      using assms(1) unfolding dct_zero_preserving_def by (rule spec)
    ultimately have "\<forall>k\<in>{0..<8}. f (\<lambda>k. S (b, k, c)) k = 0"
      using Z [of "\<lambda>k. S (b, k, c)"] by simp
    moreover have "r \<in> {0..<8}" using live by (simp add: live_cell_def cell)
    ultimately show ?thesis using True by (simp add: dct_col_def Let_def cell)
  next
    case False
    then have "dct_col f s S cell = S cell" by (auto simp add: dct_col_def Let_def cell)
    moreover have "S cell = 0" using live assms(2) unfolding live_zero_def by blast
    ultimately show ?thesis by simp
  qed
qed

lemma fold_inv:
  assumes "\<And>x s. P s \<Longrightarrow> P (f x s)" "P s"
  shows "P (fold f xs s)"
  using assms(2) by (induction xs arbitrary: s) (simp_all add: assms(1))

lemma phase_dct_live_zero:
  assumes "\<And>s S. live_zero hs vs S \<Longrightarrow> live_zero hs vs (pass s S)" "live_zero hs vs S"
  shows "live_zero hs vs (phase_dct pass hs vs blockDim S)"
  unfolding phase_dct_def
  by (rule fold_inv [where P = "live_zero hs vs", OF _ assms(2)])
    (rule fold_inv [where P = "live_zero hs vs"], rule assms(1))

lemma quantize_zero: "quantize 0 Q = 0"
proof -
  have "\<lfloor>(1::rat) / 2\<rfloor> = 0" by (simp add: floor_eq_iff)
  then show ?thesis by (simp add: quantize_def Let_def fmul_def roundf_def fl_zero)
qed

lemma quantize_page_live_zero:
  assumes "live_zero hs vs S"
  shows "live_zero hs vs (quantize_page hs vs sample t page S)"
proof -
  have step: "live_zero hs vs (S(cell := quantize (S cell) q))" if "live_zero hs vs S" for S cell q
  proof (rule live_zero_upd [OF that])
    assume "live_cell hs vs cell"
    then have "S cell = 0" using that unfolding live_zero_def by blast
    then show "quantize (S cell) q = 0" by (simp add: quantize_zero)
  qed
  have lum: "live_zero hs vs
      (fold (\<lambda>(i, j, k) S. S(luma_cell hs vs t page i j :=
           quantize (S (luma_cell hs vs t page i j)) (luma_q hs vs sample t i j))) xs S)"
    if "live_zero hs vs S" for S xs
    using that by (induction xs arbitrary: S) (auto simp add: step)
  show ?thesis
    unfolding quantize_page_def Let_def using assms by (intro lum step)
qed

lemma phase_quantize_live_zero:
  assumes "live_zero hs vs S"
  shows "live_zero hs vs (phase_quantize hs vs sample blockDim S)"
  unfolding phase_quantize_def
  by (rule fold_inv [where P = "live_zero hs vs", OF _ assms])
    (rule fold_inv [where P = "live_zero hs vs"], rule quantize_page_live_zero)

lemma phase_transforms_live_zero:
  assumes "dct_zero_preserving (dct_fwd_8x8_1d dct)" "dct_zero_preserving (dct_inv_8x8_1d dct)"
    and "live_zero hs vs S"
  shows "live_zero hs vs (phase_transforms hs vs q dct sample blockDim S)"
  unfolding phase_transforms_def Let_def
  using assms
  by (auto intro!: phase_dct_live_zero dct_row_live_zero dct_col_live_zero
      phase_quantize_live_zero)

lemma cells_live_FF:
  assumes "(tx, ty) \<in> set (threads (32, 16))" "page \<in> set (pages False False)"
  shows "live_cell False False (cb_cell (tx, ty) page)"
    and "live_cell False False (cr_cell False False (tx, ty) page)"
    and "live_cell False False (luma_cell False False (tx, ty) page 0 0)"
proof -
  have r: "0 \<le> tx" "tx < 32" "0 \<le> ty" "ty < 16" "0 \<le> page" "page < 4"
    using assms by (simp_all add: set_threads set_pages total_blocks_FF)
  have "0 \<le> ty div 8" "ty div 8 \<le> 1" "0 \<le> tx div 8" "tx div 8 \<le> 3"
    using r by presburger+
  then have b: "0 \<le> ty div 8 * 4 + tx div 8 + page * 8" "ty div 8 * 4 + tx div 8 + page * 8 < 32"
    using r by simp_all
  show "live_cell False False (cb_cell (tx, ty) page)"
    and "live_cell False False (cr_cell False False (tx, ty) page)"
    and "live_cell False False (luma_cell False False (tx, ty) page 0 0)"
    using b by (simp_all add: cells_FF live_cell_def total_blocks_FF)
qed

lemma fadd_0_128: "fadd 0 128 = 128"
  using fl_of_int [of 128] by (simp add: fadd_def)

lemma ConvertSat_128: "ConvertSat rm 128 = 128"
proof -
  have "round_to_int rm (of_int 128) = 128" by (rule round_to_int_of_int)
  then show ?thesis by (simp add: ConvertSat_def clamp_def)
qed

lemma write_page_gray:
  assumes "live_zero False False S" "t \<in> set (threads (32, 16))" "page \<in> set (pages False False)"
  shows "write_page False False rm sample blk_pos S t page out =
     (if fst (img_size sample) \<le> fst (group_offset False False blk_pos t page)
        \<or> snd (img_size sample) \<le> snd (group_offset False False blk_pos t page) then out
      else write_vec out (group_offset False False blk_pos t page) (128, 128, 128))"
proof -
  obtain tx ty where t: "t = (tx, ty)" by (cases t)
  have z: "S (cb_cell t page) = 0" "S (cr_cell False False t page) = 0"
    "S (luma_cell False False t page 0 0) = 0"
    using cells_live_FF [of tx ty page] assms unfolding t live_zero_def by blast+
  show ?thesis
    by (simp add: write_page_def Let_def sub_positions_cases z fadd_0_128 ConvertSat_128
        ycbcr_to_rgb_subsampled_def gray_ycbcr)
qed

lemma write_vec_gray_pres:
  assumes "surf_data s a = 128"
  shows "surf_data (write_vec s p (128, 128, 128)) a = 128"
  using assms by (simp add: write_vec_def Let_def)

lemma write_vec_gray_est:
  assumes "in_bounds s p" "c \<in> {0..<3}"
  shows "surf_data (write_vec s p (128, 128, 128)) (surf_offset s p + c) = 128"
proof -
  have "c = 0 \<or> c = 1 \<or> c = 2" using assms(2) by auto
  then show ?thesis using assms(1) by (auto simp add: write_vec_def Let_def in_bounds_def)
qed

lemma write_page_gray_pres:
  assumes "live_zero False False S" "t \<in> set (threads (32, 16))" "page \<in> set (pages False False)"
    and "surf_data s a = 128"
  shows "surf_data (write_page False False rm sample blk_pos S t page s) a = 128"
  using assms(4) by (simp add: write_page_gray [OF assms(1-3)] write_vec_gray_pres)

lemma fold_pres_mem:
  assumes "\<And>x s. x \<in> set xs \<Longrightarrow> I s \<Longrightarrow> I (f x s)"
    and "\<And>x s. x \<in> set xs \<Longrightarrow> I s \<Longrightarrow> P s \<Longrightarrow> P (f x s)"
    and "I s" "P s"
  shows "I (fold f xs s) \<and> P (fold f xs s)"
  using assms
proof (induction xs arbitrary: s)
  case Nil
  then show ?case by simp
next
  case (Cons a xs)
  have "I (f a s)" "P (f a s)" using Cons.prems by simp_all
  then show ?case using Cons.prems(1,2) by (simp add: Cons.IH)
qed

lemma fold_establish:
  assumes "\<And>x s. x \<in> set xs \<Longrightarrow> I s \<Longrightarrow> I (f x s)"
    and "\<And>x s. x \<in> set xs \<Longrightarrow> I s \<Longrightarrow> P s \<Longrightarrow> P (f x s)"
    and "\<And>s. I s \<Longrightarrow> P (f x0 s)"
    and "x0 \<in> set xs" "I s"
  shows "P (fold f xs s)"
  using assms
proof (induction xs arbitrary: s)
  case Nil
  then show ?case by simp
next
  case (Cons a xs)
  have Ia: "I (f a s)" using Cons.prems(1,5) by simp
  show ?case
  proof (cases "x0 = a")
    case True
    have "P (f a s)" using Cons.prems(3,5) True by simp
    then have "I (fold f xs (f a s)) \<and> P (fold f xs (f a s))"
      using Cons.prems(1,2) Ia by (intro fold_pres_mem) simp_all
    then show ?thesis by simp
  next
    case False
    then have "x0 \<in> set xs" using Cons.prems(4) by simp
    then have "P (fold f xs (f a s))"
      using Cons.prems(1,2,3) Ia by (intro Cons.IH) simp_all
    then show ?thesis by simp
  qed
qed

lemma group_offset_FF: "group_offset False False (0, 0) (x, y) 0 = (x, y)"
  by (simp add: group_offset_def)

lemma same_outside_geom:
  assumes "same_outside s0 s"
  shows "in_bounds s p = in_bounds s0 p" "surf_offset s p = surf_offset s0 p"
  using assms by (simp_all add: same_outside_def in_bounds_def surf_offset_def)

lemma phase_write_gray:
  assumes "live_zero False False S" "img_size sample = (16, 16)"
    and "x \<in> {0..<16}" "y \<in> {0..<16}" "c \<in> {0..<3}"
  shows "surf_data (phase_write False False rm sample (32, 16) (0, 0) S (out_surface sample))
           (surf_offset (out_surface sample) (x, y) + c) = 128"
proof -
  let ?s0 = "out_surface sample"
  let ?a = "surf_offset ?s0 (x, y) + c"
  let ?I = "same_outside ?s0"
  let ?P = "\<lambda>s. surf_data s ?a = 128"
  let ?wp = "\<lambda>t page out. write_page False False rm sample (0, 0) S t page out"
  let ?step = "\<lambda>t out. fold (?wp t) (pages False False) out"
  have t0: "(x, y) \<in> set (threads (32, 16))" using assms(3,4) by (simp add: set_threads)
  have p0: "0 \<in> set (pages False False)" by (simp add: set_pages total_blocks_FF)
  have inb: "in_bounds ?s0 (x, y)"
    using assms(2,3,4) by (simp add: in_bounds_def out_surface_def)
  have I_wp: "?I (?wp t page s)" if "?I s" for t page s
    using that by (rule write_page_same_outside)
  have P_wp: "?P (?wp t page s)"
    if "t \<in> set (threads (32, 16))" "page \<in> set (pages False False)" "?P s" for t page s
    using assms(1) that by (rule write_page_gray_pres)
  have est_wp: "?P (?wp (x, y) 0 s)" if "?I s" for s
  proof -
    have "?wp (x, y) 0 s = write_vec s (x, y) (128, 128, 128)"
      using assms(2,3,4) by (simp add: write_page_gray [OF assms(1) t0 p0] group_offset_FF)
    moreover have "in_bounds s (x, y)" using inb same_outside_geom(1) [OF that] by simp
    ultimately show ?thesis
      using write_vec_gray_est [of s "(x, y)" c] assms(5) same_outside_geom(2) [OF that]
      by simp
  qed
  have I_step: "?I (?step t s)" if "?I s" for t s
    using that by (intro fold_same_outside I_wp)
  have P_step: "?P (?step t s)" if "t \<in> set (threads (32, 16))" "?I s" "?P s" for t s
    using fold_pres_mem [of "pages False False" ?I "?wp t" ?P s] I_wp P_wp that by blast
  have est_step: "?P (?step (x, y) s)" if "?I s" for s
    using fold_establish [of "pages False False" ?I "?wp (x, y)" ?P 0 s] I_wp P_wp est_wp t0 p0 that
    by blast
  have "?P (fold ?step (threads (32, 16)) ?s0)"
    using fold_establish [of "threads (32, 16)" ?I ?step ?P "(x, y)" ?s0]
      I_step P_step est_step t0 same_outside_refl [of ?s0]
    by blast
  then show ?thesis by (simp add: phase_write_def)
qed

lemma loop_once: "a < b \<Longrightarrow> b \<le> a + d \<Longrightarrow> 0 < d \<Longrightarrow> loop_from a b d = [a]"
  by (subst loop_from.simps, subst loop_from.simps) simp

lemma kernel_16x16:
  assumes "blk_start block = (0, 0)" "blk_end block = (16, 16)"
  shows "JpegCompressionDistortion False False q rm dct (32, 16) sample block flat_blocks =
     tile_iteration False False q rm dct sample (in_surface sample) (32, 16) (0, 0)
       (flat_blocks, out_surface sample)"
proof -
  have l1: "loop_from 0 16 64 = [0]" "loop_from 0 16 32 = [0]" by (simp_all add: loop_once)
  show ?thesis
    by (simp add: JpegCompressionDistortion_def Let_def assms align_up_def total_blocks_FF
        vert_chroma_blocks_def l1)
qed

text \<open>
  Claim C9. For a 16x16 image whose pixels are all (128, 128, 128), processed by one
  32x16 CUDA block for the tile (0,0)..(16,16) without subsampling, with quantization on
  or off and whatever the tables (those of quality 95 among them), every element of
  every pixel of the output equals the input, 128, provided the two 1-D transforms map
  a slice of zeros to a slice of zeros.
\<close>

theorem flat_gray_16x16_unchanged:
  assumes "dct_zero_preserving (dct_fwd_8x8_1d dct)" "dct_zero_preserving (dct_inv_8x8_1d dct)"
    and "img_size sample = (16, 16)" "flat_gray sample"
    and "blk_start block = (0, 0)" "blk_end block = (16, 16)"
    and "x \<in> {0..<16}" "y \<in> {0..<16}" "c \<in> {0..<3}"
  shows "surf_data (snd (JpegCompressionDistortion False False quantization rm dct (32, 16)
                          sample block flat_blocks))
           (surf_offset (out_surface sample) (x, y) + c)
         = in_data sample (surf_offset (in_surface sample) (x, y) + c)
       \<and> in_data sample (surf_offset (in_surface sample) (x, y) + c) = 128"
proof -
  have pos: "0 < fst (img_size sample)" "0 < snd (img_size sample)" using assms(3) by simp_all
  let ?S1 = "phase_load False False rm (in_surface sample) (32, 16) (0, 0) flat_blocks"
  let ?S6 = "phase_transforms False False quantization dct sample (32, 16) ?S1"
  have "live_zero False False ?S1"
    using assms(4) pos by (rule phase_load_gray_live_zero)
  then have lz: "live_zero False False ?S6"
    using assms(1,2) by (intro phase_transforms_live_zero)
  have "surf_data (phase_write False False rm sample (32, 16) (0, 0) ?S6 (out_surface sample))
          (surf_offset (out_surface sample) (x, y) + c) = 128"
    using lz assms(3,7,8,9) by (rule phase_write_gray)
  then have out: "surf_data (snd (JpegCompressionDistortion False False quantization rm dct (32, 16)
                          sample block flat_blocks))
           (surf_offset (out_surface sample) (x, y) + c) = 128"
    by (simp add: kernel_16x16 [OF assms(5,6)] tile_iteration_def Let_def)
  have inp: "in_data sample (surf_offset (in_surface sample) (x, y) + c) = 128"
    using assms(3,4,7,8,9) unfolding flat_gray_def by simp
  from out inp show ?thesis by simp
qed

section \<open>The quantization phase\<close>

lemma radix_inj:
  assumes "0 \<le> (u::int)" "u < W" "0 \<le> u'" "u' < W" "v * W + u = v' * W + (u'::int)"
  shows "u = u'" "v = v'"
proof -
  have "(v * W + u) mod W = u" "(v' * W + u') mod W = u'"
    using assms(1-4) by simp_all
  then show "u = u'" using assms(5) by simp
  have "(v * W + u) div W = v" "(v' * W + u') div W = v'"
    using assms(1-4) by simp_all
  then show "v = v'" using assms(5) by simp
qed

lemma radix_bound:
  assumes "0 \<le> (u::int)" "u < W" "0 \<le> v" "v < (H::int)"
  shows "0 \<le> v * W + u" "v * W + u < H * W"
proof -
  have W: "0 \<le> W" using assms(1,2) by simp
  show "0 \<le> v * W + u" using assms(1,3) W by simp
  have "(v + 1) * W \<le> H * W" using assms(4) W by (intro mult_right_mono) simp_all
  then show "v * W + u < H * W" using assms(2) by (simp add: algebra_simps)
qed

lemma div8_range:
  assumes "0 \<le> (X::int)" "X < 8 * W"
  shows "0 \<le> X div 8" "X div 8 < W"
  using assms by presburger+

lemma div_range:
  assumes "0 \<le> (a::int)" "a < n * b" "0 < b"
  shows "0 \<le> a div b" "a div b < n" "0 \<le> a mod b" "a mod b < b"
proof -
  show "0 \<le> a div b" using assms(1,3) by (simp add: pos_imp_zdiv_nonneg_iff)
  show "0 \<le> a mod b" "a mod b < b" using assms(3) by simp_all
  have "a div b * b + a mod b = a" by (rule div_mult_mod_eq)
  then have "a div b * b \<le> a" using \<open>0 \<le> a mod b\<close> by linarith
  then have "a div b * b < n * b" using assms(2) by simp
  then show "a div b < n" using assms(3) by (simp add: mult_less_cancel_right)
qed

lemma cell_at_index:
  assumes "0 \<le> (X::int)" "X < 8 * W" "0 \<le> Y" "Y < 8 * H" "0 \<le> page" "page < n"
  shows "0 \<le> (Y div 8) * W + X div 8 + page * (W * H)"
    and "(Y div 8) * W + X div 8 + page * (W * H) < n * (W * H)"
proof -
  have u: "0 \<le> X div 8" "X div 8 < W" using div8_range [OF assms(1,2)] .
  have v: "0 \<le> Y div 8" "Y div 8 < H" using div8_range [OF assms(3,4)] .
  have b: "0 \<le> (Y div 8) * W + X div 8" "(Y div 8) * W + X div 8 < H * W"
    using radix_bound [OF u v] by simp_all
  then have b': "(Y div 8) * W + X div 8 < W * H" by (simp add: mult.commute)
  have "0 \<le> page * (W * H) + ((Y div 8) * W + X div 8)"
    "page * (W * H) + ((Y div 8) * W + X div 8) < n * (W * H)"
    using radix_bound [OF b(1) b' assms(5,6)] by simp_all
  then show "0 \<le> (Y div 8) * W + X div 8 + page * (W * H)"
    and "(Y div 8) * W + X div 8 + page * (W * H) < n * (W * H)"
    by (simp_all add: add.commute)
qed

lemma cell_at_inj:
  assumes "0 \<le> X" "X < 8 * W" "0 \<le> Y" "Y < 8 * H"
    and "0 \<le> X'" "X' < 8 * W" "0 \<le> Y'" "Y' < 8 * H"
    and "cell_at base W H X Y page = cell_at base W H X' Y' page'"
  shows "X = X'" "Y = Y'" "page = page'"
proof -
  have u: "0 \<le> X div 8" "X div 8 < W" using div8_range [OF assms(1,2)] .
  have v: "0 \<le> Y div 8" "Y div 8 < H" using div8_range [OF assms(3,4)] .
  have u': "0 \<le> X' div 8" "X' div 8 < W" using div8_range [OF assms(5,6)] .
  have v': "0 \<le> Y' div 8" "Y' div 8 < H" using div8_range [OF assms(7,8)] .
  have b: "0 \<le> (Y div 8) * W + X div 8" "(Y div 8) * W + X div 8 < W * H"
    using radix_bound [OF u v] by (simp_all add: mult.commute)
  have b': "0 \<le> (Y' div 8) * W + X' div 8" "(Y' div 8) * W + X' div 8 < W * H"
    using radix_bound [OF u' v'] by (simp_all add: mult.commute)
  have e: "page * (W * H) + ((Y div 8) * W + X div 8) = page' * (W * H) + ((Y' div 8) * W + X' div 8)"
    and m: "Y mod 8 = Y' mod 8" "X mod 8 = X' mod 8"
    using assms(9) by (simp_all add: cell_at_def)
  have i: "(Y div 8) * W + X div 8 = (Y' div 8) * W + X' div 8"
    and p: "page = page'"
    using radix_inj [OF b b' e] by simp_all
  have d: "X div 8 = X' div 8" "Y div 8 = Y' div 8"
    using radix_inj [OF u u' i] by simp_all
  show "X = X'" using d(1) m(2) by (metis div_mult_mod_eq)
  show "Y = Y'" using d(2) m(1) by (metis div_mult_mod_eq)
  show "page = page'" by (rule p)
qed

lemma cell_at_cover:
  assumes "base \<le> b" "b < base + n * (W * H)" "0 < W" "0 < H" "0 \<le> r" "r < 8" "0 \<le> c" "c < 8"
  obtains X Y page where "0 \<le> X" "X < 8 * W" "0 \<le> Y" "Y < 8 * H" "0 \<le> page" "page < n"
    "(b, r, c) = cell_at base W H X Y page"
proof -
  define idx where "idx = b - base"
  define page where "page = idx div (W * H)"
  define rem where "rem = idx mod (W * H)"
  define v where "v = rem div W"
  define u where "u = rem mod W"
  define X where "X = 8 * u + c"
  define Y where "Y = 8 * v + r"
  have WH: "0 < W * H" using assms(3,4) by simp
  have idx: "0 \<le> idx" "idx < n * (W * H)" using assms(1,2) by (simp_all add: idx_def)
  have page: "0 \<le> page" "page < n" and rem: "0 \<le> rem" "rem < W * H"
    unfolding page_def rem_def using div_range [OF idx WH] by simp_all
  have rem': "rem < H * W" using rem(2) by (simp add: mult.commute)
  have v: "0 \<le> v" "v < H" and u: "0 \<le> u" "u < W"
    unfolding v_def u_def using div_range [OF rem(1) rem' assms(3)] by simp_all
  have X: "0 \<le> X" "X < 8 * W" "X div 8 = u" "X mod 8 = c"
    using u assms(7,8) by (simp_all add: X_def)
  have Y: "0 \<le> Y" "Y < 8 * H" "Y div 8 = v" "Y mod 8 = r"
    using v assms(5,6) by (simp_all add: Y_def)
  have "v * W + u = rem" unfolding v_def u_def by (rule div_mult_mod_eq)
  moreover have "page * (W * H) + rem = idx" unfolding page_def rem_def by (rule div_mult_mod_eq)
  ultimately have "base + v * W + u + page * (W * H) = b" by (simp add: idx_def)
  then have "(b, r, c) = cell_at base W H X Y page" by (simp add: cell_at_def X Y)
  then show ?thesis using that X(1,2) Y(1,2) page by blast
qed

lemma double_succ_div8: "(2 * (t::int) + 1) div 8 = (2 * t) div 8"
proof -
  have "(2 * t + 1) div (2 * 4) = ((2 * t + 1) div 2) div 4" by (rule zdiv_zmult2_eq) simp
  moreover have "(2 * t) div (2 * 4) = ((2 * t) div 2) div 4" by (rule zdiv_zmult2_eq) simp
  moreover have "(2 * t + 1) div 2 = t" "(2 * t) div 2 = t" by simp_all
  ultimately show ?thesis by simp
qed

lemma double_succ_mod8: "(2 * (t::int) + 1) mod 8 = (2 * t) mod 8 + 1"
proof -
  have a: "(2 * t + 1) mod 8 = (2 * t + 1) - 8 * ((2 * t + 1) div 8)"
    by (simp only: minus_mult_div_eq_mod)
  have b: "(2 * t) mod 8 = 2 * t - 8 * ((2 * t) div 8)"
    by (simp only: minus_mult_div_eq_mod)
  show ?thesis by (simp only: a b double_succ_div8)
qed

lemma luma_coord:
  assumes "0 \<le> (j::int)" "j \<le> of_bool hs"
  shows "drop_bit 3 (push_bit (of_bool hs) (tx::int)) = (push_bit (of_bool hs) tx + j) div 8"
    and "(push_bit (of_bool hs) tx AND 7) + j = (push_bit (of_bool hs) tx + j) mod 8"
proof -
  have "drop_bit 3 (push_bit (of_bool hs) tx) = (push_bit (of_bool hs) tx + j) div 8
      \<and> (push_bit (of_bool hs) tx AND 7) + j = (push_bit (of_bool hs) tx + j) mod 8"
  proof (cases hs)
    case True
    then have j: "j = 0 \<or> j = 1" using assms by auto
    have "(tx * 2) div 8 = (tx * 2 + j) div 8" "(tx * 2) mod 8 + j = (tx * 2 + j) mod 8"
      using j double_succ_div8 [of tx] double_succ_mod8 [of tx]
      by (auto simp only: mult.commute [of tx 2] add_0_right)
    then show ?thesis using True by (simp add: and7 drop3 push_bit_eq_mult)
  next
    case False
    then have "j = 0" using assms by simp
    then show ?thesis using False by (simp add: and7 drop3)
  qed
  then show "drop_bit 3 (push_bit (of_bool hs) tx) = (push_bit (of_bool hs) tx + j) div 8"
    and "(push_bit (of_bool hs) tx AND 7) + j = (push_bit (of_bool hs) tx + j) mod 8"
    by simp_all
qed

lemma luma_coord_range:
  assumes "0 \<le> (j::int)" "j \<le> of_bool hs" "0 \<le> tx" "tx < n"
  shows "0 \<le> push_bit (of_bool hs) tx + j" "push_bit (of_bool hs) tx + j < push_bit (of_bool hs) n"
  using assms by (cases hs; simp add: push_bit_eq_mult)+

lemma luma_coord_inj:
  assumes "0 \<le> (j::int)" "j \<le> of_bool hs" "0 \<le> j'" "j' \<le> of_bool hs"
    and "push_bit (of_bool hs) tx + j = push_bit (of_bool hs) tx' + j'"
  shows "tx = tx'" "j = j'"
  using assms by (cases hs; simp add: push_bit_eq_mult; presburger)+

lemma luma_coord_cover:
  assumes "0 \<le> (X::int)" "X < push_bit (of_bool hs) n"
  obtains tx j where "0 \<le> j" "j \<le> of_bool hs" "0 \<le> tx" "tx < n"
    "X = push_bit (of_bool hs) tx + j"
proof (cases hs)
  case True
  have "0 \<le> X mod 2" "X mod 2 \<le> of_bool hs" "0 \<le> X div 2" "X div 2 < n"
    "X = push_bit (of_bool hs) (X div 2) + X mod 2"
    using assms True by (simp_all add: push_bit_eq_mult)
  then show ?thesis using that by blast
next
  case False
  have "0 \<le> (0::int)" "(0::int) \<le> of_bool hs" "0 \<le> X" "X < n" "X = push_bit (of_bool hs) X + 0"
    using assms False by simp_all
  then show ?thesis using that by blast
qed

lemma luma_geometry:
  "horz_luma_blocks hs = push_bit (of_bool hs) 4" "vert_luma_blocks vs = push_bit (of_bool vs) 2"
  "luma_page hs vs = horz_luma_blocks hs * vert_luma_blocks vs"
  "chroma_blocks hs vs = num_pages hs vs * (4 * 2)"
  "total_blocks hs vs = 2 * chroma_blocks hs vs
     + num_pages hs vs * (horz_luma_blocks hs * vert_luma_blocks vs)"
  "0 < horz_luma_blocks hs" "0 < vert_luma_blocks vs"
  "8 * horz_luma_blocks hs = push_bit (of_bool hs) 32"
  "8 * vert_luma_blocks vs = push_bit (of_bool vs) 16"
  by (cases hs; cases vs;
      simp add: horz_luma_blocks_def vert_luma_blocks_def luma_page_def chroma_blocks_def
        total_blocks_def luma_blocks_def chroma_page_def vert_chroma_blocks_def
        horz_chroma_blocks_def)+

lemma cells_as_cell_at:
  "cb_cell (tx, ty) page = cell_at 0 4 2 tx ty page"
  "cr_cell hs vs (tx, ty) page = cell_at (chroma_blocks hs vs) 4 2 tx ty page"
  "0 \<le> i \<Longrightarrow> i \<le> of_bool vs \<Longrightarrow> 0 \<le> j \<Longrightarrow> j \<le> of_bool hs \<Longrightarrow>
   luma_cell hs vs (tx, ty) page i j =
     cell_at (2 * chroma_blocks hs vs) (horz_luma_blocks hs) (vert_luma_blocks vs)
       (push_bit (of_bool hs) tx + j) (push_bit (of_bool vs) ty + i) page"
proof -
  show "cb_cell (tx, ty) page = cell_at 0 4 2 tx ty page"
    by (simp add: cb_cell_def chroma_block_idx_def chroma_x_def chroma_y_def and7 drop3
        horz_chroma_blocks_def chroma_page_def vert_chroma_blocks_def cell_at_def)
  show "cr_cell hs vs (tx, ty) page = cell_at (chroma_blocks hs vs) 4 2 tx ty page"
    by (simp add: cr_cell_def chroma_block_idx_def chroma_x_def chroma_y_def and7 drop3
        horz_chroma_blocks_def chroma_page_def vert_chroma_blocks_def cell_at_def)
  assume ij: "0 \<le> i" "i \<le> of_bool vs" "0 \<le> j" "j \<le> of_bool hs"
  show "luma_cell hs vs (tx, ty) page i j =
     cell_at (2 * chroma_blocks hs vs) (horz_luma_blocks hs) (vert_luma_blocks vs)
       (push_bit (of_bool hs) tx + j) (push_bit (of_bool vs) ty + i) page"
    unfolding luma_cell_def luma_block_idx_def luma_x_def luma_y_def cell_at_def fst_conv snd_conv
      luma_coord [OF ij(3,4)] luma_coord [OF ij(1,2)] luma_geometry(3)
    by (simp add: mult.commute)
qed

lemma sub_positions_ij:
  "(\<exists>k. (i, j, k) \<in> set (sub_positions hs vs)) \<longleftrightarrow>
     0 \<le> i \<and> i \<le> of_bool vs \<and> 0 \<le> j \<and> j \<le> of_bool hs"
proof
  assume "\<exists>k. (i, j, k) \<in> set (sub_positions hs vs)"
  then show "0 \<le> i \<and> i \<le> of_bool vs \<and> 0 \<le> j \<and> j \<le> of_bool hs"
    by (cases hs; cases vs) (auto simp add: sub_positions_cases)
next
  assume a: "0 \<le> i \<and> i \<le> of_bool vs \<and> 0 \<le> j \<and> j \<le> of_bool hs"
  have i: "i = 0 \<or> (vs \<and> i = 1)" using a by (cases vs) auto
  have j: "j = 0 \<or> (hs \<and> j = 1)" using a by (cases hs) auto
  show "\<exists>k. (i, j, k) \<in> set (sub_positions hs vs)"
    using i j by (cases hs; cases vs) (auto simp add: sub_positions_cases)
qed

lemma cells_of_cases:
  "c \<in> cells_of hs vs t page \<longleftrightarrow>
     c = cb_cell t page \<or> c = cr_cell hs vs t page \<or>
     (\<exists>i j. 0 \<le> i \<and> i \<le> of_bool vs \<and> 0 \<le> j \<and> j \<le> of_bool hs \<and> c = luma_cell hs vs t page i j)"
proof -
  have "c \<in> cells_of hs vs t page \<longleftrightarrow>
     c = cb_cell t page \<or> c = cr_cell hs vs t page \<or>
     (\<exists>i j. (\<exists>k. (i, j, k) \<in> set (sub_positions hs vs)) \<and> c = luma_cell hs vs t page i j)"
    unfolding cells_of_def by blast
  then show ?thesis by (simp only: sub_positions_ij conj_assoc)
qed

lemma cell_at_fst:
  "fst (cell_at base W H X Y page) = base + ((Y div 8) * W + X div 8 + page * (W * H))"
  by (simp add: cell_at_def)

lemma thread_range:
  assumes "(tx, ty) \<in> set (threads (32, 16))"
  shows "0 \<le> tx" "tx < 8 * 4" "0 \<le> ty" "ty < 8 * 2" "tx < 32" "ty < 16"
  using assms by (simp_all add: set_threads)

lemma page_range:
  assumes "page \<in> set (pages hs vs)"
  shows "0 \<le> page" "page < num_pages hs vs"
  using assms by (simp_all add: set_pages)

lemma luma_pos_range:
  assumes "(tx, ty) \<in> set (threads (32, 16))"
    and "0 \<le> i" "i \<le> of_bool vs" "0 \<le> j" "j \<le> of_bool hs"
  shows "0 \<le> push_bit (of_bool hs) tx + j" "push_bit (of_bool hs) tx + j < 8 * horz_luma_blocks hs"
    "0 \<le> push_bit (of_bool vs) ty + i" "push_bit (of_bool vs) ty + i < 8 * vert_luma_blocks vs"
  using luma_coord_range [OF assms(4,5) thread_range(1,5) [OF assms(1)]]
    luma_coord_range [OF assms(2,3) thread_range(3,6) [OF assms(1)]]
  by (simp_all only: luma_geometry(8,9))

lemma cells_of_kinds:
  assumes "(tx, ty) \<in> set (threads (32, 16))" "page \<in> set (pages hs vs)"
    and "c \<in> cells_of hs vs (tx, ty) page"
  shows "(0 \<le> fst c \<and> fst c < chroma_blocks hs vs \<and> c = cell_at 0 4 2 tx ty page)
       \<or> (chroma_blocks hs vs \<le> fst c \<and> fst c < 2 * chroma_blocks hs vs
            \<and> c = cell_at (chroma_blocks hs vs) 4 2 tx ty page)
       \<or> (2 * chroma_blocks hs vs \<le> fst c \<and> fst c < total_blocks hs vs
            \<and> (\<exists>i j. 0 \<le> i \<and> i \<le> of_bool vs \<and> 0 \<le> j \<and> j \<le> of_bool hs
                 \<and> c = luma_cell hs vs (tx, ty) page i j
                 \<and> c = cell_at (2 * chroma_blocks hs vs) (horz_luma_blocks hs) (vert_luma_blocks vs)
                       (push_bit (of_bool hs) tx + j) (push_bit (of_bool vs) ty + i) page))"
proof -
  note t = thread_range [OF assms(1)]
  note p = page_range [OF assms(2)]
  have ci: "0 \<le> (ty div 8) * 4 + tx div 8 + page * (4 * 2)"
    "(ty div 8) * 4 + tx div 8 + page * (4 * 2) < chroma_blocks hs vs"
    using cell_at_index [OF t(1,2,3,4) p] by (simp_all only: luma_geometry(4))
  consider "c = cb_cell (tx, ty) page" | "c = cr_cell hs vs (tx, ty) page"
    | i j where "0 \<le> i" "i \<le> of_bool vs" "0 \<le> j" "j \<le> of_bool hs"
        "c = luma_cell hs vs (tx, ty) page i j"
    using assms(3) unfolding cells_of_cases by blast
  then show ?thesis
  proof cases
    case 1
    then have "c = cell_at 0 4 2 tx ty page" by (simp only: cells_as_cell_at)
    then show ?thesis using ci by (simp add: cell_at_fst)
  next
    case 2
    then have "c = cell_at (chroma_blocks hs vs) 4 2 tx ty page" by (simp only: cells_as_cell_at)
    then show ?thesis using ci by (simp add: cell_at_fst)
  next
    case 3
    note r = luma_pos_range [OF assms(1) 3(1-4)]
    have e: "c = cell_at (2 * chroma_blocks hs vs) (horz_luma_blocks hs) (vert_luma_blocks vs)
                  (push_bit (of_bool hs) tx + j) (push_bit (of_bool vs) ty + i) page"
      using 3(5) cells_as_cell_at(3) [OF 3(1-4)] by simp
    have "2 * chroma_blocks hs vs \<le> fst c" "fst c < total_blocks hs vs"
      using cell_at_index [OF r p]
      by (simp_all add: e cell_at_fst luma_geometry(5))
    then show ?thesis using 3 e by blast
  qed
qed

lemma cells_of_inj:
  assumes "t \<in> set (threads (32, 16))" "page \<in> set (pages hs vs)"
    and "t' \<in> set (threads (32, 16))" "page' \<in> set (pages hs vs)"
    and "c \<in> cells_of hs vs t page" "c \<in> cells_of hs vs t' page'"
  shows "t = t' \<and> page = page'"
proof -
  obtain tx ty where t: "t = (tx, ty)" by (cases t)
  obtain tx' ty' where t': "t' = (tx', ty')" by (cases t')
  note k = cells_of_kinds [OF assms(1) [unfolded t] assms(2) assms(5) [unfolded t]]
  note k' = cells_of_kinds [OF assms(3) [unfolded t'] assms(4) assms(6) [unfolded t']]
  note r = thread_range [OF assms(1) [unfolded t]]
  note r' = thread_range [OF assms(3) [unfolded t']]
  consider (cb) "c = cell_at 0 4 2 tx ty page" "c = cell_at 0 4 2 tx' ty' page'"
    | (cr) "c = cell_at (chroma_blocks hs vs) 4 2 tx ty page"
           "c = cell_at (chroma_blocks hs vs) 4 2 tx' ty' page'"
    | (luma) i j i' j' where "0 \<le> i" "i \<le> of_bool vs" "0 \<le> j" "j \<le> of_bool hs"
        "0 \<le> i'" "i' \<le> of_bool vs" "0 \<le> j'" "j' \<le> of_bool hs"
        "c = cell_at (2 * chroma_blocks hs vs) (horz_luma_blocks hs) (vert_luma_blocks vs)
               (push_bit (of_bool hs) tx + j) (push_bit (of_bool vs) ty + i) page"
        "c = cell_at (2 * chroma_blocks hs vs) (horz_luma_blocks hs) (vert_luma_blocks vs)
               (push_bit (of_bool hs) tx' + j') (push_bit (of_bool vs) ty' + i') page'"
    using k k' by (elim disjE conjE exE) (linarith | blast)+
  then show ?thesis
  proof cases
    case cb
    then have "cell_at 0 4 2 tx ty page = cell_at 0 4 2 tx' ty' page'" by simp
    from cell_at_inj [OF r(1,2,3,4) r'(1,2,3,4) this] show ?thesis by (simp add: t t')
  next
    case cr
    then have "cell_at (chroma_blocks hs vs) 4 2 tx ty page
      = cell_at (chroma_blocks hs vs) 4 2 tx' ty' page'" by simp
    from cell_at_inj [OF r(1,2,3,4) r'(1,2,3,4) this] show ?thesis by (simp add: t t')
  next
    case luma
    note a = luma_pos_range [OF assms(1) [unfolded t] luma(1-4)]
    note a' = luma_pos_range [OF assms(3) [unfolded t'] luma(5-8)]
    have "cell_at (2 * chroma_blocks hs vs) (horz_luma_blocks hs) (vert_luma_blocks vs)
               (push_bit (of_bool hs) tx + j) (push_bit (of_bool vs) ty + i) page
        = cell_at (2 * chroma_blocks hs vs) (horz_luma_blocks hs) (vert_luma_blocks vs)
               (push_bit (of_bool hs) tx' + j') (push_bit (of_bool vs) ty' + i') page'"
      using luma(9,10) by simp
    from cell_at_inj [OF a a' this]
    have e: "push_bit (of_bool hs) tx + j = push_bit (of_bool hs) tx' + j'"
      "push_bit (of_bool vs) ty + i = push_bit (of_bool vs) ty' + i'" "page = page'" .
    have "tx = tx'" using luma_coord_inj(1) [OF luma(3,4,7,8) e(1)] .
    moreover have "ty = ty'" using luma_coord_inj(1) [OF luma(1,2,5,6) e(2)] .
    ultimately show ?thesis using e(3) by (simp add: t t')
  qed
qed

lemma cells_of_cover:
  assumes "live_cell hs vs cell"
  shows "\<exists>t\<in>set (threads (32, 16)). \<exists>page\<in>set (pages hs vs). cell \<in> cells_of hs vs t page"
proof -
  obtain b r c where cell: "cell = (b, r, c)" by (cases cell)
  have l: "0 \<le> b" "b < total_blocks hs vs" "0 \<le> r" "r < 8" "0 \<le> c" "c < 8"
    using assms by (simp_all add: live_cell_def cell)
  consider "b < chroma_blocks hs vs" | "chroma_blocks hs vs \<le> b" "b < 2 * chroma_blocks hs vs"
    | "2 * chroma_blocks hs vs \<le> b" by linarith
  then show ?thesis
  proof cases
    case 1
    have b: "0 \<le> b" "b < 0 + num_pages hs vs * (4 * 2)"
      using l(1) 1 by (simp_all only: luma_geometry(4) add_0)
    obtain X Y page where p: "0 \<le> X" "X < 8 * 4" "0 \<le> Y" "Y < 8 * 2" "0 \<le> page"
      "page < num_pages hs vs" "(b, r, c) = cell_at 0 4 2 X Y page"
      using cell_at_cover [where W = 4 and H = 2, OF b _ _ l(3-6)] by auto
    have "(X, Y) \<in> set (threads (32, 16))" "page \<in> set (pages hs vs)"
      using p by (simp_all add: set_threads set_pages)
    moreover have "cell \<in> cells_of hs vs (X, Y) page"
      using p(7) by (simp add: cells_of_cases cells_as_cell_at cell)
    ultimately show ?thesis by blast
  next
    case 2
    have b: "chroma_blocks hs vs \<le> b" "b < chroma_blocks hs vs + num_pages hs vs * (4 * 2)"
      using 2 luma_geometry(4) [of hs vs] by simp_all
    obtain X Y page where p: "0 \<le> X" "X < 8 * 4" "0 \<le> Y" "Y < 8 * 2" "0 \<le> page"
      "page < num_pages hs vs" "(b, r, c) = cell_at (chroma_blocks hs vs) 4 2 X Y page"
      using cell_at_cover [where W = 4 and H = 2, OF b _ _ l(3-6)] by auto
    have "(X, Y) \<in> set (threads (32, 16))" "page \<in> set (pages hs vs)"
      using p by (simp_all add: set_threads set_pages)
    moreover have "cell \<in> cells_of hs vs (X, Y) page"
      using p(7) by (simp add: cells_of_cases cells_as_cell_at cell)
    ultimately show ?thesis by blast
  next
    case 3
    have b: "2 * chroma_blocks hs vs \<le> b"
      "b < 2 * chroma_blocks hs vs + num_pages hs vs * (horz_luma_blocks hs * vert_luma_blocks vs)"
      using 3 l(2) by (simp_all only: luma_geometry(5))
    obtain X Y page where p: "0 \<le> X" "X < 8 * horz_luma_blocks hs" "0 \<le> Y"
      "Y < 8 * vert_luma_blocks vs" "0 \<le> page" "page < num_pages hs vs"
      "(b, r, c) = cell_at (2 * chroma_blocks hs vs) (horz_luma_blocks hs) (vert_luma_blocks vs) X Y page"
      using cell_at_cover [OF b luma_geometry(6,7) l(3-6)] by metis
    obtain tx j where x: "0 \<le> j" "j \<le> of_bool hs" "0 \<le> tx" "tx < 32"
      "X = push_bit (of_bool hs) tx + j"
      using luma_coord_cover [OF p(1) p(2) [unfolded luma_geometry(8)]] by metis
    obtain ty i where y: "0 \<le> i" "i \<le> of_bool vs" "0 \<le> ty" "ty < 16"
      "Y = push_bit (of_bool vs) ty + i"
      using luma_coord_cover [OF p(3) p(4) [unfolded luma_geometry(9)]] by metis
    have "(tx, ty) \<in> set (threads (32, 16))" "page \<in> set (pages hs vs)"
      using p x y by (simp_all add: set_threads set_pages)
    moreover have "cell = luma_cell hs vs (tx, ty) page i j"
      using p(7) cells_as_cell_at(3) [OF y(1,2) x(1,2)] by (simp add: cell x(5) y(5))
    then have "cell \<in> cells_of hs vs (tx, ty) page"
      unfolding cells_of_cases using x(1,2) y(1,2) by blast
    ultimately show ?thesis by blast
  qed
qed

lemma distinct_concat_map:
  assumes "distinct xs" "\<And>x. x \<in> set xs \<Longrightarrow> distinct (g x)"
    and "\<And>x y. x \<in> set xs \<Longrightarrow> y \<in> set (g x) \<Longrightarrow> h y = x"
  shows "distinct (concat (map g xs))"
  using assms
proof (induction xs)
  case Nil
  then show ?case by simp
next
  case (Cons a xs)
  have "set (g a) \<inter> set (concat (map g xs)) = {}"
  proof (rule ccontr)
    assume "set (g a) \<inter> set (concat (map g xs)) \<noteq> {}"
    then obtain y x where y: "y \<in> set (g a)" "x \<in> set xs" "y \<in> set (g x)" by auto
    then have "h y = a" "h y = x" using Cons.prems(3) by simp_all
    then show False using y(2) Cons.prems(1) by simp
  qed
  moreover have "distinct (concat (map g xs))" using Cons by simp
  ultimately show ?case using Cons.prems(2) by simp
qed

lemma distinct_threads: "distinct (threads bd)"
  unfolding threads_def
  by (rule distinct_concat_map [where h = snd]) (auto simp add: distinct_map inj_on_def)

lemma quantize_page_frame:
  assumes "c \<notin> cells_of hs vs t page"
  shows "quantize_page hs vs sample t page S c = S c"
  using assms
  by (cases hs; cases vs)
    (auto simp add: quantize_page_def Let_def sub_positions_cases cells_of_def)

lemma quantize_page_update:
  assumes "t \<in> set (threads (32, 16))" "page \<in> set (pages hs vs)"
    and "c \<in> cells_of hs vs t page"
  shows "quantize_page hs vs sample t page S c
         = quantize (S c) (cell_q (plane_table hs vs sample c) c)"
proof -
  obtain tx ty where t: "t = (tx, ty)" by (cases t)
  note r = thread_range [OF assms(1) [unfolded t]]
  note p = page_range [OF assms(2)]
  have nn: "0 \<le> fst t" "0 \<le> snd t" "0 \<le> page" using r p by (simp_all add: t)
  note k = cells_of_kinds [OF assms(1) [unfolded t] assms(2) assms(3) [unfolded t]]
  have cbpos: "0 < chroma_blocks hs vs" by (rule chroma_blocks_pos)
  consider (cb) "c = cb_cell t page" "fst c < 2 * chroma_blocks hs vs"
    | (cr) "c = cr_cell hs vs t page" "fst c < 2 * chroma_blocks hs vs"
    | (luma) i j k where "(i, j, k) \<in> set (sub_positions hs vs)"
        "c = luma_cell hs vs t page i j" "\<not> fst c < 2 * chroma_blocks hs vs"
  proof -
    from k show ?thesis
    proof (elim disjE conjE exE)
      assume a: "c = cell_at 0 4 2 tx ty page" "fst c < chroma_blocks hs vs"
      have "c = cb_cell t page" using a(1) by (simp add: cells_as_cell_at t)
      moreover have "fst c < 2 * chroma_blocks hs vs" using a(2) cbpos by linarith
      ultimately show ?thesis by (rule that(1))
    next
      assume a: "c = cell_at (chroma_blocks hs vs) 4 2 tx ty page" "fst c < 2 * chroma_blocks hs vs"
      have "c = cr_cell hs vs t page" using a(1) by (simp add: cells_as_cell_at t)
      then show ?thesis using a(2) by (rule that(2))
    next
      fix i j
      assume a: "0 \<le> i" "i \<le> of_bool vs" "0 \<le> j" "j \<le> of_bool hs"
        "c = luma_cell hs vs (tx, ty) page i j" "2 * chroma_blocks hs vs \<le> fst c"
      obtain k where k: "(i, j, k) \<in> set (sub_positions hs vs)"
        using a(1-4) sub_positions_ij [of i j hs vs] by blast
      have "c = luma_cell hs vs t page i j" using a(5) by (simp add: t)
      moreover have "\<not> fst c < 2 * chroma_blocks hs vs" using a(6) by linarith
      ultimately show ?thesis using k that(3) by blast
    qed
  qed
  then show ?thesis
  proof cases
    case cb
    then show ?thesis using quantize_page_cells(1) [OF nn] by (simp add: plane_table_def)
  next
    case cr
    then show ?thesis using quantize_page_cells(2) [OF nn] by (simp add: plane_table_def)
  next
    case luma
    then show ?thesis using quantize_page_cells(3) [OF nn luma(1)] by (simp add: plane_table_def)
  qed
qed

lemma fold_once:
  assumes "\<And>x S. x \<in> set xs \<Longrightarrow> c \<notin> W x \<Longrightarrow> f x S c = S c"
    and "\<And>x S. x \<in> set xs \<Longrightarrow> c \<in> W x \<Longrightarrow> f x S c = g (S c)"
    and "distinct xs"
    and "\<And>x y. x \<in> set xs \<Longrightarrow> y \<in> set xs \<Longrightarrow> c \<in> W x \<Longrightarrow> c \<in> W y \<Longrightarrow> x = y"
  shows "fold f xs S c = (if \<exists>x\<in>set xs. c \<in> W x then g (S c) else S c)"
  using assms
proof (induction xs arbitrary: S)
  case Nil
  then show ?case by simp
next
  case (Cons a xs)
  have IH: "fold f xs (f a S) c = (if \<exists>x\<in>set xs. c \<in> W x then g (f a S c) else f a S c)"
    using Cons.prems by (intro Cons.IH) simp_all
  show ?case
  proof (cases "c \<in> W a")
    case True
    have "\<not> (\<exists>x\<in>set xs. c \<in> W x)"
    proof
      assume "\<exists>x\<in>set xs. c \<in> W x"
      then obtain x where x: "x \<in> set xs" "c \<in> W x" by blast
      then have "x = a" using Cons.prems(4) [of x a] True by simp
      then show False using x(1) Cons.prems(3) by simp
    qed
    then show ?thesis using True IH Cons.prems(2) [of a S] by simp
  next
    case False
    then show ?thesis using IH Cons.prems(1) [of a S] by simp
  qed
qed

lemma phase_quantize_cell:
  "phase_quantize hs vs sample (32, 16) S c =
     (if \<exists>t\<in>set (threads (32, 16)). \<exists>page\<in>set (pages hs vs). c \<in> cells_of hs vs t page
      then quantize (S c) (cell_q (plane_table hs vs sample c) c) else S c)"
proof -
  let ?g = "\<lambda>v. quantize v (cell_q (plane_table hs vs sample c) c)"
  let ?W = "\<lambda>t. {c. \<exists>page\<in>set (pages hs vs). c \<in> cells_of hs vs t page}"
  let ?inner = "\<lambda>t S. fold (\<lambda>page S. quantize_page hs vs sample t page S) (pages hs vs) S"
  have inner: "?inner t S c = (if c \<in> ?W t then ?g (S c) else S c)"
    if t: "t \<in> set (threads (32, 16))" for t S
  proof -
    have "?inner t S c = (if \<exists>page\<in>set (pages hs vs). c \<in> cells_of hs vs t page
                          then ?g (S c) else S c)"
    proof (rule fold_once)
      show "distinct (pages hs vs)" by (simp add: pages_def)
    next
      fix page S assume "page \<in> set (pages hs vs)" "c \<notin> cells_of hs vs t page"
      then show "quantize_page hs vs sample t page S c = S c" by (simp add: quantize_page_frame)
    next
      fix page S assume "page \<in> set (pages hs vs)" "c \<in> cells_of hs vs t page"
      then show "quantize_page hs vs sample t page S c = ?g (S c)"
        using t by (simp add: quantize_page_update)
    next
      fix page page' assume "page \<in> set (pages hs vs)" "page' \<in> set (pages hs vs)"
        "c \<in> cells_of hs vs t page" "c \<in> cells_of hs vs t page'"
      then show "page = page'" using cells_of_inj [OF t _ t] by blast
    qed
    then show ?thesis by simp
  qed
  have "fold ?inner (threads (32, 16)) S c
        = (if \<exists>t\<in>set (threads (32, 16)). c \<in> ?W t then ?g (S c) else S c)"
  proof (rule fold_once)
    show "distinct (threads (32, 16))" by (rule distinct_threads)
  next
    fix t S assume "t \<in> set (threads (32, 16))" "c \<notin> ?W t"
    then show "?inner t S c = S c" using inner by simp
  next
    fix t S assume "t \<in> set (threads (32, 16))" "c \<in> ?W t"
    then show "?inner t S c = ?g (S c)" using inner by simp
  next
    fix t t' assume "t \<in> set (threads (32, 16))" "t' \<in> set (threads (32, 16))"
      "c \<in> ?W t" "c \<in> ?W t'"
    then show "t = t'" using cells_of_inj by blast
  qed
  then show ?thesis by (simp add: phase_quantize_def)
qed

lemma phase_quantize_live:
  assumes "live_cell hs vs c"
  shows "phase_quantize hs vs sample (32, 16) S c
         = quantize (S c) (cell_q (plane_table hs vs sample c) c)"
  using cells_of_cover [OF assms] by (simp add: phase_quantize_cell)

lemma phase_transforms_quantized:
  "phase_transforms hs vs True dct sample blockDim S =
     phase_dct (dct_row (dct_inv_8x8_1d dct)) hs vs blockDim
       (phase_dct (dct_col (dct_inv_8x8_1d dct)) hs vs blockDim
          (phase_quantize hs vs sample blockDim
             (phase_dct (dct_col (dct_fwd_8x8_1d dct)) hs vs blockDim
                (phase_dct (dct_row (dct_fwd_8x8_1d dct)) hs vs blockDim S))))"
  by (simp add: phase_transforms_def Let_def)

text \<open>
  Claim C2, as amended. For every coefficient value \<open>v\<close> and table entry \<open>Q\<close>,
  \<^verbatim>\<open>quantize\<close> returns \<open>Q'\<close> times an integer, where \<open>Q' = Q\<close> if \<open>Q \<ge> 1\<close> and
  \<open>Q' = 1\<close> otherwise, and the integer is the single-precision product of \<open>v\<close> and
  the rounded reciprocal of \<open>Q'\<close>, rounded to the nearest integer (half way cases away
  from zero); every operation is rounded to single precision. In the kernel, run by a
  CUDA block of 32x16 threads in any subsampling mode, the quantization phase replaces the
  coefficient in every cell of the shared array (blocks \<open>0..total_blocks - 1\<close>, rows and
  columns \<open>0..7\<close>) by \<^verbatim>\<open>quantize\<close> of its old value against the table entry at the
  (row, column) position of the cell: the chroma table for the cells of the Cb and Cr
  blocks, the luma table for the cells of the luma blocks. With quantization enabled this
  phase runs between the two forward and the two inverse transform passes.
\<close>

theorem quantize_single_precision:
  assumes "live_cell hs vs cell"
  shows "quantize v Q =
           (let Q' = (if Q < 1 then 1 else Q)
            in fl (Q' * of_int (round_to_int HalfAway (fl (v * fl (1 / Q'))))))
       \<and> phase_quantize hs vs sample (32, 16) S cell
           = quantize (S cell) (cell_q (plane_table hs vs sample cell) cell)
       \<and> phase_transforms hs vs True dct sample blockDim S =
           phase_dct (dct_row (dct_inv_8x8_1d dct)) hs vs blockDim
             (phase_dct (dct_col (dct_inv_8x8_1d dct)) hs vs blockDim
                (phase_quantize hs vs sample blockDim
                   (phase_dct (dct_col (dct_fwd_8x8_1d dct)) hs vs blockDim
                      (phase_dct (dct_row (dct_fwd_8x8_1d dct)) hs vs blockDim S))))"
  using quantize_closed [of v Q] phase_quantize_live [OF assms, of sample S]
    phase_transforms_quantized [of hs vs dct sample blockDim S]
  by simp


section \<open>The theorems at the concrete scenario\<close>

lemma example_sample_simps:
  "img_size example_sample = (16, 16)" "img_strides example_sample = (3, 48)"
  "in_data example_sample = (\<lambda>_. 128)" "out_data example_sample = (\<lambda>_. 0)"
  by (simp_all add: example_sample_def SampleDesc_default_def)

lemma example_out_surface:
  "surf_size (out_surface example_sample) = (16, 16)"
  "surf_strides (out_surface example_sample) = (3, 48)"
  "surf_data (out_surface example_sample) = (\<lambda>_. 0)"
  by (simp_all add: out_surface_def example_sample_simps)


lemma example_flat_gray: "flat_gray example_sample"
  by (simp add: flat_gray_def example_sample_simps)

lemma identity_dct_zero_preserving:
  "dct_zero_preserving (dct_fwd_8x8_1d identity_dct)"
  "dct_zero_preserving (dct_inv_8x8_1d identity_dct)"
  by (simp_all add: dct_zero_preserving_def identity_dct_def)

lemma example_not_in_image: "\<not> in_image (out_surface example_sample) 768"
  by (auto simp add: in_image_def surf_offset_def example_out_surface)


theorem kernel_writes_inside_image_witness:
  "surf_data (snd (JpegCompressionDistortion True True True HalfEven identity_dct (32, 16)
                     example_sample example_block (\<lambda>_. 0))) 768
     = out_data example_sample 768
   \<and> write_page True True HalfEven example_sample (0, 0) (\<lambda>_. 0) (20, 0) 0
         (out_surface example_sample) = out_surface example_sample
   \<and> write_vec (out_surface example_sample) (16, 0) (1, 2, 3) = out_surface example_sample"
  using kernel_writes_inside_image [where sample = example_sample and a = 768 and hs = True
      and vs = True and q = True and rm = HalfEven and dct = identity_dct
      and blockDim = "(32, 16)" and block = example_block and flat_blocks = "\<lambda>_. 0"
      and blk_pos = "(0, 0)" and t = "(20, 0)" and page = 0 and S = "\<lambda>_. 0"
      and out = "out_surface example_sample" and pos = "(16, 0)" and v = "(1, 2, 3)"]
    example_not_in_image
  by (simp add: group_offset_def example_sample_simps in_bounds_def example_out_surface)

theorem flat_gray_16x16_unchanged_witness:
  "surf_data (snd (JpegCompressionDistortion False False True HalfEven identity_dct (32, 16)
                     example_sample example_block (\<lambda>_. 0)))
     (surf_offset (out_surface example_sample) (5, 7) + 1)
   = in_data example_sample (surf_offset (in_surface example_sample) (5, 7) + 1)
   \<and> in_data example_sample (surf_offset (in_surface example_sample) (5, 7) + 1) = 128"
  by (rule flat_gray_16x16_unchanged)
    (simp_all add: identity_dct_zero_preserving example_flat_gray example_sample_simps
      example_block_def)


theorem quantize_single_precision_witness:
  "quantize (15 / 2) 3 =
           (let Q' = (if (3::rat) < 1 then 1 else 3)
            in fl (Q' * of_int (round_to_int HalfAway (fl (15 / 2 * fl (1 / Q'))))))
       \<and> phase_quantize True True example_sample (32, 16) (\<lambda>_. 15 / 2) (40, 3, 5)
           = quantize ((\<lambda>_. 15 / 2) (40, 3, 5))
               (cell_q (plane_table True True example_sample (40, 3, 5)) (40, 3, 5))
       \<and> phase_transforms True True True identity_dct example_sample (32, 16) (\<lambda>_. 15 / 2) =
           phase_dct (dct_row (dct_inv_8x8_1d identity_dct)) True True (32, 16)
             (phase_dct (dct_col (dct_inv_8x8_1d identity_dct)) True True (32, 16)
                (phase_quantize True True example_sample (32, 16)
                   (phase_dct (dct_col (dct_fwd_8x8_1d identity_dct)) True True (32, 16)
                      (phase_dct (dct_row (dct_fwd_8x8_1d identity_dct)) True True (32, 16)
                         (\<lambda>_. 15 / 2)))))"
  by (rule quantize_single_precision)
    (simp add: live_cell_def total_blocks_def chroma_blocks_def luma_blocks_def luma_page_def
      chroma_page_def num_pages_def vert_luma_blocks_def horz_luma_blocks_def
      vert_chroma_blocks_def horz_chroma_blocks_def)

theorem rgb_to_ycbcr_subsampled_group_witness:
  "rgb_to_ycbcr_subsampled True True HalfEven (2, 3) (in_surface example_sample) =
     (let sampled = map (sampler_nn_clamp (in_surface example_sample))
                      (group_positions True True (2, 3))
      in \<lparr>luma = map (rgb_to_y HalfEven) sampled,
          cb = rgb_to_cb HalfEven (mean_rgb HalfEven sampled),
          cr = rgb_to_cr HalfEven (mean_rgb HalfEven sampled)\<rparr>)
   \<and> length (group_positions True True (2, 3)) = (1 + of_bool True) * (1 + of_bool True)
   \<and> sampler_nn_clamp (in_surface example_sample) (2, 3) =
       (let p = (clamp 2 0 (fst (surf_size (in_surface example_sample)) - 1),
                 clamp 3 0 (snd (surf_size (in_surface example_sample)) - 1))
        in (surf_at (in_surface example_sample) p 0, surf_at (in_surface example_sample) p 1,
            surf_at (in_surface example_sample) p 2))"
  by (rule rgb_to_ycbcr_subsampled_group) simp_all

section \<open>The colour round trip\<close>

lemma fl_err_512:
  assumes "\<bar>x\<bar> < 512"
  shows "\<bar>fl x - x\<bar> \<le> 1 / 65536"
proof (cases "x = 0")
  case True
  then show ?thesis by (simp add: fl_zero)
next
  case False
  then have pos: "0 < \<bar>x\<bar>" by simp
  have "2 powi bexp \<bar>x\<bar> \<le> \<bar>x\<bar>" using bexp_bounds(1) [OF pos] .
  also have "\<bar>x\<bar> < 2 powi 9" using assms by simp
  finally have "bexp \<bar>x\<bar> < 9" by (simp only: p2_less_iff)
  then have "ulp_exp x \<le> - 15" by (simp add: ulp_exp_def)
  then have "(2::rat) powi ulp_exp x \<le> 2 powi (- 15)" by (simp only: p2_le_iff)
  then have "(2::rat) powi ulp_exp x / 2 \<le> 1 / 65536" by (simp add: power_int_minus_divide)
  then show ?thesis using fl_err [of x] by linarith
qed

lemma round_to_int_err: "\<bar>of_int (round_to_int rm x) - x\<bar> \<le> 1 / 2"
proof (cases rm)
  case HalfAway
  show ?thesis
  proof (cases "0 \<le> x")
    case True
    define m where "m = \<lfloor>x + 1 / 2\<rfloor>"
    have "rat_of_int m \<le> x + 1 / 2" "x + 1 / 2 < rat_of_int m + 1"
      unfolding m_def by linarith+
    then have "\<bar>rat_of_int m - x\<bar> \<le> 1 / 2" by linarith
    then show ?thesis using True by (simp only: HalfAway round_to_int.simps m_def if_True)
  next
    case False
    define m where "m = \<lfloor>- x + 1 / 2\<rfloor>"
    have "rat_of_int m \<le> - x + 1 / 2" "- x + 1 / 2 < rat_of_int m + 1"
      unfolding m_def by linarith+
    then have "\<bar>- rat_of_int m - x\<bar> \<le> 1 / 2" by linarith
    then have "\<bar>rat_of_int (- m) - x\<bar> \<le> 1 / 2" by simp
    then show ?thesis using False by (simp only: HalfAway round_to_int.simps m_def if_False)
  qed
next
  case HalfEven
  then show ?thesis using rne_err [of x] by simp
qed

lemma u8r_bounds: "0 \<le> u8r w" "u8r w \<le> 255"
proof -
  have "0 \<le> uint w" "uint w \<le> 255" using uint_u8_bounds [of w] by simp_all
  then have "rat_of_int 0 \<le> of_int (uint w)" "rat_of_int (uint w) \<le> of_int 255"
    by (simp_all only: of_int_le_iff)
  then show "0 \<le> u8r w" "u8r w \<le> 255" by (simp_all add: u8r_def del: of_int_uint)
qed

lemma u8_to_float_u8r: "u8_to_float w = u8r w"
  by (simp only: u8_to_float_exact u8r_def)

lemma ConvertSat_err:
  assumes "- (1 / 2) - d \<le> x" "x \<le> 255 + 1 / 2 + d" "0 \<le> d"
  shows "\<bar>u8r (ConvertSat rm x) - x\<bar> \<le> 1 / 2 + d"
proof -
  define n where "n = round_to_int rm x"
  have e: "\<bar>rat_of_int n - x\<bar> \<le> 1 / 2" unfolding n_def by (rule round_to_int_err)
  have u: "u8r (ConvertSat rm x) = of_int (clamp n 0 255)"
    by (simp only: u8r_def uint_ConvertSat n_def)
  consider "n < 0" | "255 < n" | "0 \<le> n" "n \<le> 255" by linarith
  then show ?thesis
  proof cases
    case 1
    then have "rat_of_int n \<le> rat_of_int (- 1)" by (simp only: of_int_le_iff)
    then have "rat_of_int n \<le> - 1" by simp
    then have "\<bar>0 - x\<bar> \<le> 1 / 2 + d" using e assms by linarith
    moreover have "clamp n 0 255 = 0" using 1 by (simp add: clamp_def)
    ultimately show ?thesis by (simp add: u)
  next
    case 2
    then have "rat_of_int 256 \<le> rat_of_int n" by (simp only: of_int_le_iff)
    then have "256 \<le> rat_of_int n" by simp
    then have "\<bar>255 - x\<bar> \<le> 1 / 2 + d" using e assms by linarith
    moreover have "clamp n 0 255 = 255" using 2 by (simp add: clamp_def)
    ultimately show ?thesis by (simp add: u)
  next
    case 3
    then show ?thesis using e assms by (simp add: u clamp_def)
  qed
qed

lemma ConvertSat_near_int:
  assumes "\<bar>x - u8r b\<bar> < 3 / 2"
  shows "\<bar>uint (ConvertSat rm x) - uint b\<bar> \<le> 1"
proof -
  define n where "n = round_to_int rm x"
  have e: "\<bar>rat_of_int n - x\<bar> \<le> 1 / 2" unfolding n_def by (rule round_to_int_err)
  have "\<bar>rat_of_int n - rat_of_int (uint b)\<bar> < 2"
    using e assms unfolding u8r_def by linarith
  then have "\<bar>rat_of_int (n - uint b)\<bar> < rat_of_int 2" by simp
  then have "\<bar>n - uint b\<bar> < 2" by (simp only: of_int_abs [symmetric] of_int_less_iff)
  then have nb: "\<bar>n - uint b\<bar> \<le> 1" by simp
  have bb: "0 \<le> uint b" "uint b \<le> 255" using uint_u8_bounds [of b] by simp_all
  have "\<bar>clamp n 0 255 - uint b\<bar> \<le> 1" using nb bb by (simp add: clamp_def) linarith
  then show ?thesis by (simp only: uint_ConvertSat n_def)
qed

lemma opM0:
  assumes "\<bar>c * b\<bar> < 512"
  shows "\<bar>fmul c b - c * b\<bar> \<le> 1 / 65536"
  unfolding fmul_def using assms by (rule fl_err_512)

lemma opM:
  assumes "\<bar>b - b'\<bar> \<le> eb" "\<bar>c * b'\<bar> + \<bar>c\<bar> * eb < 512"
  shows "\<bar>fmul c b - c * b'\<bar> \<le> \<bar>c\<bar> * eb + 1 / 65536"
proof -
  have "\<bar>c * b - c * b'\<bar> = \<bar>c\<bar> * \<bar>b - b'\<bar>" by (simp add: abs_mult [symmetric] right_diff_distrib)
  also have "\<dots> \<le> \<bar>c\<bar> * eb" using assms(1) by (intro mult_left_mono) simp_all
  finally have d: "\<bar>c * b - c * b'\<bar> \<le> \<bar>c\<bar> * eb" .
  then have "\<bar>c * b\<bar> < 512" using assms(2) by linarith
  then have "\<bar>fl (c * b) - c * b\<bar> \<le> 1 / 65536" by (rule fl_err_512)
  then show ?thesis unfolding fmul_def using d by linarith
qed

lemma opA:
  assumes "\<bar>a - a'\<bar> \<le> ea" "\<bar>b - b'\<bar> \<le> eb" "\<bar>a' + b'\<bar> + ea + eb < 512"
  shows "\<bar>fadd a b - (a' + b')\<bar> \<le> ea + eb + 1 / 65536"
proof -
  have d: "\<bar>(a + b) - (a' + b')\<bar> \<le> ea + eb" using assms(1,2) by linarith
  then have "\<bar>a + b\<bar> < 512" using assms(3) by linarith
  then have "\<bar>fl (a + b) - (a + b)\<bar> \<le> 1 / 65536" by (rule fl_err_512)
  then show ?thesis unfolding fadd_def using d by linarith
qed

lemma opS:
  assumes "\<bar>a - a'\<bar> \<le> ea" "\<bar>b - b'\<bar> \<le> eb" "\<bar>a' - b'\<bar> + ea + eb < 512"
  shows "\<bar>fsub a b - (a' - b')\<bar> \<le> ea + eb + 1 / 65536"
proof -
  have d: "\<bar>(a - b) - (a' - b')\<bar> \<le> ea + eb" using assms(1,2) by linarith
  then have "\<bar>a - b\<bar> < 512" using assms(3) by linarith
  then have "\<bar>fl (a - b) - (a - b)\<bar> \<le> 1 / 65536" by (rule fl_err_512)
  then show ?thesis unfolding fsub_def using d by linarith
qed

lemma colour_constants:
  "fl (299 / 1000) = 10032775 / 33554432" "fl (587 / 1000) = 4924113 / 8388608" "fl (114 / 1000) = 15300821 / 134217728"
  "fl (16873589 / 100000000) = 5661837 / 33554432" "fl (33126411 / 100000000) = 11115379 / 33554432"
  "fl (41868759 / 100000000) = 1756103 / 4194304" "fl (8131241 / 100000000) = 10913567 / 134217728"
  "fl (1402 / 1000) = 2940207 / 2097152" "fl (34413629 / 100000000) = 5773649 / 16777216"
  "fl (71413629 / 100000000) = 11981219 / 16777216" "fl (1772 / 1000) = 14864613 / 8388608"
  "fl (1 / 2) = 1 / 2"
  by code_simp+

lemma rgb_to_y_err:
  "\<bar>u8r (rgb_to_y rm (x, y, z)) - ((10032775 / 33554432) * u8r x + (4924113 / 8388608) * u8r y + (15300821 / 134217728) * u8r z)\<bar>
     \<le> 1 / 2 + 5 / 65536"
proof -
  define r g b where "r = u8r x" and "g = u8r y" and "b = u8r z"
  have rb: "0 \<le> r" "r \<le> 255" "0 \<le> g" "g \<le> 255" "0 \<le> b" "b \<le> 255"
    unfolding r_def g_def b_def by (rule u8r_bounds)+
  have m1: "\<bar>fmul (10032775 / 33554432) r - (10032775 / 33554432) * r\<bar> \<le> 1 / 65536"
    by (rule opM0) (use rb in linarith)
  have m2: "\<bar>fmul (4924113 / 8388608) g - (4924113 / 8388608) * g\<bar> \<le> 1 / 65536"
    by (rule opM0) (use rb in linarith)
  have m3: "\<bar>fmul (15300821 / 134217728) b - (15300821 / 134217728) * b\<bar> \<le> 1 / 65536"
    by (rule opM0) (use rb in linarith)
  have a1: "\<bar>fadd (fmul (10032775 / 33554432) r) (fmul (4924113 / 8388608) g) - ((10032775 / 33554432) * r + (4924113 / 8388608) * g)\<bar>
      \<le> 1 / 65536 + 1 / 65536 + 1 / 65536"
    by (rule opA [OF m1 m2]) (use rb in linarith)
  define t where "t = fadd (fadd (fmul (10032775 / 33554432) r) (fmul (4924113 / 8388608) g)) (fmul (15300821 / 134217728) b)"
  have a2: "\<bar>t - ((10032775 / 33554432) * r + (4924113 / 8388608) * g + (15300821 / 134217728) * b)\<bar>
      \<le> 1 / 65536 + 1 / 65536 + 1 / 65536 + 1 / 65536 + 1 / 65536"
    unfolding t_def by (rule opA [OF a1 m3]) (use rb in linarith)
  have "\<bar>u8r (ConvertSat rm t) - t\<bar> \<le> 1 / 2 + 0"
    by (rule ConvertSat_err) (use a2 rb in linarith)+
  moreover have eq: "rgb_to_y rm (x, y, z) = ConvertSat rm t"
    unfolding rgb_to_y_def t_def r_def g_def b_def
    by (simp only: prod.case colour_constants u8_to_float_u8r)
  ultimately show ?thesis using a2 unfolding eq r_def g_def b_def by linarith
qed

lemma rgb_to_cb_err:
  "\<bar>u8r (rgb_to_cb rm (x, y, z)) - (- (5661837 / 33554432) * u8r x - (11115379 / 33554432) * u8r y + (1 / 2) * u8r z + 128)\<bar>
     \<le> 1 / 2 + 12 / 65536"
proof -
  define r g b where "r = u8r x" and "g = u8r y" and "b = u8r z"
  have rb: "0 \<le> r" "r \<le> 255" "0 \<le> g" "g \<le> 255" "0 \<le> b" "b \<le> 255"
    unfolding r_def g_def b_def by (rule u8r_bounds)+
  have m1: "\<bar>fmul (- (5661837 / 33554432)) r - - (5661837 / 33554432) * r\<bar> \<le> 1 / 65536"
    by (rule opM0) (use rb in linarith)
  have m2: "\<bar>fmul (11115379 / 33554432) g - (11115379 / 33554432) * g\<bar> \<le> 1 / 65536"
    by (rule opM0) (use rb in linarith)
  have m3: "\<bar>fmul (1 / 2) b - (1 / 2) * b\<bar> \<le> 1 / 65536"
    by (rule opM0) (use rb in linarith)
  have c: "\<bar>(128::rat) - 128\<bar> \<le> 0" by simp
  have a1: "\<bar>fsub (fmul (- (5661837 / 33554432)) r) (fmul (11115379 / 33554432) g) - (- (5661837 / 33554432) * r - (11115379 / 33554432) * g)\<bar>
      \<le> 1 / 65536 + 1 / 65536 + 1 / 65536"
    by (rule opS [OF m1 m2]) (use rb in linarith)
  have a2: "\<bar>fadd (fsub (fmul (- (5661837 / 33554432)) r) (fmul (11115379 / 33554432) g)) (fmul (1 / 2) b)
       - (- (5661837 / 33554432) * r - (11115379 / 33554432) * g + (1 / 2) * b)\<bar>
      \<le> 1 / 65536 + 1 / 65536 + 1 / 65536 + 1 / 65536 + 1 / 65536"
    by (rule opA [OF a1 m3]) (use rb in linarith)
  define t where
    "t = fadd (fadd (fsub (fmul (- (5661837 / 33554432)) r) (fmul (11115379 / 33554432) g)) (fmul (1 / 2) b)) 128"
  have a3: "\<bar>t - (- (5661837 / 33554432) * r - (11115379 / 33554432) * g + (1 / 2) * b + 128)\<bar>
      \<le> 1 / 65536 + 1 / 65536 + 1 / 65536 + 1 / 65536 + 1 / 65536 + 0 + 1 / 65536"
    unfolding t_def by (rule opA [OF a2 c]) (use rb in linarith)
  have "\<bar>u8r (ConvertSat rm t) - t\<bar> \<le> 1 / 2 + 6 / 65536"
    by (rule ConvertSat_err) (use a3 rb in linarith)+
  moreover have eq: "rgb_to_cb rm (x, y, z) = ConvertSat rm t"
    unfolding rgb_to_cb_def t_def r_def g_def b_def
    by (simp only: prod.case colour_constants u8_to_float_u8r)
  ultimately show ?thesis using a3 unfolding eq r_def g_def b_def by linarith
qed

lemma rgb_to_cr_err:
  "\<bar>u8r (rgb_to_cr rm (x, y, z)) - ((1 / 2) * u8r x - (1756103 / 4194304) * u8r y - (10913567 / 134217728) * u8r z + 128)\<bar>
     \<le> 1 / 2 + 12 / 65536"
proof -
  define r g b where "r = u8r x" and "g = u8r y" and "b = u8r z"
  have rb: "0 \<le> r" "r \<le> 255" "0 \<le> g" "g \<le> 255" "0 \<le> b" "b \<le> 255"
    unfolding r_def g_def b_def by (rule u8r_bounds)+
  have m1: "\<bar>fmul (1 / 2) r - (1 / 2) * r\<bar> \<le> 1 / 65536"
    by (rule opM0) (use rb in linarith)
  have m2: "\<bar>fmul (1756103 / 4194304) g - (1756103 / 4194304) * g\<bar> \<le> 1 / 65536"
    by (rule opM0) (use rb in linarith)
  have m3: "\<bar>fmul (10913567 / 134217728) b - (10913567 / 134217728) * b\<bar> \<le> 1 / 65536"
    by (rule opM0) (use rb in linarith)
  have c: "\<bar>(128::rat) - 128\<bar> \<le> 0" by simp
  have a1: "\<bar>fsub (fmul (1 / 2) r) (fmul (1756103 / 4194304) g) - ((1 / 2) * r - (1756103 / 4194304) * g)\<bar>
      \<le> 1 / 65536 + 1 / 65536 + 1 / 65536"
    by (rule opS [OF m1 m2]) (use rb in linarith)
  have a2: "\<bar>fsub (fsub (fmul (1 / 2) r) (fmul (1756103 / 4194304) g)) (fmul (10913567 / 134217728) b)
       - ((1 / 2) * r - (1756103 / 4194304) * g - (10913567 / 134217728) * b)\<bar>
      \<le> 1 / 65536 + 1 / 65536 + 1 / 65536 + 1 / 65536 + 1 / 65536"
    by (rule opS [OF a1 m3]) (use rb in linarith)
  define t where
    "t = fadd (fsub (fsub (fmul (1 / 2) r) (fmul (1756103 / 4194304) g)) (fmul (10913567 / 134217728) b)) 128"
  have a3: "\<bar>t - ((1 / 2) * r - (1756103 / 4194304) * g - (10913567 / 134217728) * b + 128)\<bar>
      \<le> 1 / 65536 + 1 / 65536 + 1 / 65536 + 1 / 65536 + 1 / 65536 + 0 + 1 / 65536"
    unfolding t_def by (rule opA [OF a2 c]) (use rb in linarith)
  have "\<bar>u8r (ConvertSat rm t) - t\<bar> \<le> 1 / 2 + 6 / 65536"
    by (rule ConvertSat_err) (use a3 rb in linarith)+
  moreover have eq: "rgb_to_cr rm (x, y, z) = ConvertSat rm t"
    unfolding rgb_to_cr_def t_def r_def g_def b_def
    by (simp only: prod.case colour_constants u8_to_float_u8r)
  ultimately show ?thesis using a3 unfolding eq r_def g_def b_def by linarith
qed

lemma fsub_u8r_128: "fsub (u8r w) 128 = u8r w - 128"
proof -
  have "0 \<le> uint w" "uint w \<le> 255" using uint_u8_bounds [of w] by simp_all
  then have "\<bar>uint w - 128\<bar> < 16777216" by linarith
  then have "\<bar>uint w - 128\<bar> < 2 ^ 24" by simp
  then have "fl (of_int (uint w - 128)) = of_int (uint w - 128)" by (rule fl_of_int)
  then show ?thesis by (simp add: fsub_def u8r_def del: of_int_uint)
qed

lemma ycbcr_to_rgb_err:
  obtains tr tg tb where
    "ycbcr_to_rgb rm (yy, cbb, crr) = (ConvertSat rm tr, ConvertSat rm tg, ConvertSat rm tb)"
    "\<bar>tr - (u8r yy + (2940207 / 2097152) * (u8r crr - 128))\<bar> \<le> 2 / 65536"
    "\<bar>tg - (u8r yy - (5773649 / 16777216) * (u8r cbb - 128) - (11981219 / 16777216) * (u8r crr - 128))\<bar> \<le> 4 / 65536"
    "\<bar>tb - (u8r yy + (14864613 / 8388608) * (u8r cbb - 128))\<bar> \<le> 2 / 65536"
proof -
  define y cb cr where "y = u8r yy" and "cb = u8r cbb - 128" and "cr = u8r crr - 128"
  have rb: "0 \<le> y" "y \<le> 255" "- 128 \<le> cb" "cb \<le> 127" "- 128 \<le> cr" "cr \<le> 127"
    using u8r_bounds [of yy] u8r_bounds [of cbb] u8r_bounds [of crr]
    unfolding y_def cb_def cr_def by simp_all
  have y0: "\<bar>y - y\<bar> \<le> 0" by simp
  have m1: "\<bar>fmul (2940207 / 2097152) cr - (2940207 / 2097152) * cr\<bar> \<le> 1 / 65536"
    by (rule opM0) (use rb in linarith)
  have m2: "\<bar>fmul (5773649 / 16777216) cb - (5773649 / 16777216) * cb\<bar> \<le> 1 / 65536"
    by (rule opM0) (use rb in linarith)
  have m3: "\<bar>fmul (11981219 / 16777216) cr - (11981219 / 16777216) * cr\<bar> \<le> 1 / 65536"
    by (rule opM0) (use rb in linarith)
  have m4: "\<bar>fmul (14864613 / 8388608) cb - (14864613 / 8388608) * cb\<bar> \<le> 1 / 65536"
    by (rule opM0) (use rb in linarith)
  define tr tg tb where "tr = fadd y (fmul (2940207 / 2097152) cr)"
    and "tg = fsub (fsub y (fmul (5773649 / 16777216) cb)) (fmul (11981219 / 16777216) cr)"
    and "tb = fadd y (fmul (14864613 / 8388608) cb)"
  have er: "\<bar>tr - (y + (2940207 / 2097152) * cr)\<bar> \<le> 0 + 1 / 65536 + 1 / 65536"
    unfolding tr_def by (rule opA [OF y0 m1]) (use rb in linarith)
  have g1: "\<bar>fsub y (fmul (5773649 / 16777216) cb) - (y - (5773649 / 16777216) * cb)\<bar> \<le> 0 + 1 / 65536 + 1 / 65536"
    by (rule opS [OF y0 m2]) (use rb in linarith)
  have eg: "\<bar>tg - (y - (5773649 / 16777216) * cb - (11981219 / 16777216) * cr)\<bar>
      \<le> 0 + 1 / 65536 + 1 / 65536 + 1 / 65536 + 1 / 65536"
    unfolding tg_def by (rule opS [OF g1 m3]) (use rb in linarith)
  have eb: "\<bar>tb - (y + (14864613 / 8388608) * cb)\<bar> \<le> 0 + 1 / 65536 + 1 / 65536"
    unfolding tb_def by (rule opA [OF y0 m4]) (use rb in linarith)
  have "ycbcr_to_rgb rm (yy, cbb, crr) = (ConvertSat rm tr, ConvertSat rm tg, ConvertSat rm tb)"
    unfolding ycbcr_to_rgb_def tr_def tg_def tb_def y_def cb_def cr_def
    by (simp only: prod.case Let_def colour_constants u8_to_float_u8r fsub_u8r_128)
  then show ?thesis
    using er eg eb that [of tr tg tb] unfolding y_def cb_def cr_def by simp
qed

lemma colour_round_trip_aux:
  "within1 (ycbcr_to_rgb rm (rgb_to_y rm (x, y, z), rgb_to_cb rm (x, y, z), rgb_to_cr rm (x, y, z)))
     (x, y, z)"
proof -
  define r g b where "r = u8r x" and "g = u8r y" and "b = u8r z"
  have rb: "0 \<le> r" "r \<le> 255" "0 \<le> g" "g \<le> 255" "0 \<le> b" "b \<le> 255"
    unfolding r_def g_def b_def by (rule u8r_bounds)+
  define Y Cb Cr where "Y = u8r (rgb_to_y rm (x, y, z))" and "Cb = u8r (rgb_to_cb rm (x, y, z)) - 128"
    and "Cr = u8r (rgb_to_cr rm (x, y, z)) - 128"
  have ey: "\<bar>Y - ((10032775 / 33554432) * r + (4924113 / 8388608) * g + (15300821 / 134217728) * b)\<bar> \<le> 1 / 2 + 5 / 65536"
    unfolding Y_def r_def g_def b_def by (rule rgb_to_y_err)
  have ecb: "\<bar>Cb - (- (5661837 / 33554432) * r - (11115379 / 33554432) * g + (1 / 2) * b)\<bar> \<le> 1 / 2 + 12 / 65536"
    using rgb_to_cb_err [of rm x y z] unfolding Cb_def r_def g_def b_def by linarith
  have ecr: "\<bar>Cr - ((1 / 2) * r - (1756103 / 4194304) * g - (10913567 / 134217728) * b)\<bar> \<le> 1 / 2 + 12 / 65536"
    using rgb_to_cr_err [of rm x y z] unfolding Cr_def r_def g_def b_def by linarith
  obtain tr tg tb where
    eq: "ycbcr_to_rgb rm (rgb_to_y rm (x, y, z), rgb_to_cb rm (x, y, z), rgb_to_cr rm (x, y, z))
           = (ConvertSat rm tr, ConvertSat rm tg, ConvertSat rm tb)"
    and er: "\<bar>tr - (Y + (2940207 / 2097152) * Cr)\<bar> \<le> 2 / 65536"
    and eg: "\<bar>tg - (Y - (5773649 / 16777216) * Cb - (11981219 / 16777216) * Cr)\<bar> \<le> 4 / 65536"
    and eb: "\<bar>tb - (Y + (14864613 / 8388608) * Cb)\<bar> \<le> 2 / 65536"
    unfolding Y_def Cb_def Cr_def by (rule ycbcr_to_rgb_err)
  have "\<bar>tr - r\<bar> < 3 / 2" using er ey ecr rb by linarith
  then have R: "\<bar>uint (ConvertSat rm tr) - uint x\<bar> \<le> 1"
    unfolding r_def by (rule ConvertSat_near_int)
  have "\<bar>tg - g\<bar> < 3 / 2" using eg ey ecb ecr rb by linarith
  then have G: "\<bar>uint (ConvertSat rm tg) - uint y\<bar> \<le> 1"
    unfolding g_def by (rule ConvertSat_near_int)
  have "\<bar>tb - b\<bar> < 3 / 2" using eb ey ecb rb by linarith
  then have B: "\<bar>uint (ConvertSat rm tb) - uint z\<bar> \<le> 1"
    unfolding b_def by (rule ConvertSat_near_int)
  show ?thesis unfolding eq within1_def using R G B by simp
qed

lemma colour_round_trip_within1: "within1 (colour_round_trip rm p) p"
  unfolding colour_round_trip_def by (cases p) (simp add: colour_round_trip_aux)


section \<open>The transform passes of a 32x16 block without subsampling\<close>

lemma fold_concat_map: "fold f (concat (map g xs)) s = fold (\<lambda>x s. fold f (g x) s) xs s"
  by (induction xs arbitrary: s) simp_all

lemma loop_from_two:
  assumes "0 \<le> a" "a < 512"
  shows "loop_from a 768 512 = (if a < 256 then [a, a + 512] else [a])"
  using assms
  by (subst loop_from.simps, subst loop_from.simps, subst loop_from.simps) simp

lemma tid_range:
  assumes "t \<in> set (threads (32, 16))"
  shows "0 \<le> tid (32, 16) t" "tid (32, 16) t < 512"
    "((tid (32, 16) t) mod 32, (tid (32, 16) t) div 32) = t"
  using assms by (auto simp add: set_threads tid_def)

lemma distinct_slices: "distinct slices"
  unfolding slices_def
proof (rule distinct_concat_map [where h = "\<lambda>s. ((s mod 512) mod 32, (s mod 512) div 32)"])
  show "distinct (threads (32, 16))" by (rule distinct_threads)
next
  fix t assume "t \<in> set (threads (32, 16))"
  then show "distinct (loop_from (tid (32, 16) t) 768 512)"
    using tid_range(1,2) [of t] by (simp add: loop_from_two)
next
  fix t s assume t: "t \<in> set (threads (32, 16))" and s: "s \<in> set (loop_from (tid (32, 16) t) 768 512)"
  define a where "a = tid (32, 16) t"
  have a: "0 \<le> a" "a < 512" unfolding a_def using tid_range(1,2) [OF t] .
  have "s \<in> set (if a < 256 then [a, a + 512] else [a])"
    using s loop_from_two [OF a] by (simp only: a_def)
  then have "s = a \<or> s = a + 512" by (cases "a < 256") simp_all
  then have "s mod 512 = a" using a by auto
  then show "((s mod 512) mod 32, (s mod 512) div 32) = t"
    using tid_range(3) [OF t] by (simp only: a_def)
qed

lemma set_slices: "set slices = {0..<768}"
proof (intro set_eqI iffI)
  fix s assume "s \<in> set slices"
  then obtain t where t: "t \<in> set (threads (32, 16))" and s: "s \<in> set (loop_from (tid (32, 16) t) 768 512)"
    unfolding slices_def by (simp only: set_concat set_map) blast
  define a where "a = tid (32, 16) t"
  have a: "0 \<le> a" "a < 512" unfolding a_def using tid_range(1,2) [OF t] .
  have "s \<in> set (if a < 256 then [a, a + 512] else [a])"
    using s loop_from_two [OF a] by (simp only: a_def)
  then have "s = a \<or> (a < 256 \<and> s = a + 512)" by (cases "a < 256") simp_all
  then show "s \<in> {0..<768}" using a by auto
next
  fix s :: int assume s: "s \<in> {0..<768}"
  define a where "a = s mod 512"
  define t where "t = (a mod 32, a div 32)"
  have a: "0 \<le> a" "a < 512" by (simp_all add: a_def)
  then have "0 \<le> a div 32" "a div 32 < 16" by presburger+
  then have t: "t \<in> set (threads (32, 16))" by (simp add: set_threads t_def)
  have tid: "tid (32, 16) t = a" by (simp add: tid_def t_def)
  have s': "0 \<le> s" "s < 768" using s by simp_all
  have "s = a \<or> (a < 256 \<and> s = a + 512)"
  proof (cases "s < 512")
    case True
    then show ?thesis using s' by (simp add: a_def)
  next
    case False
    have "s mod 512 = (s - 512) mod 512" by (simp only: minus_mod_self2)
    also have "\<dots> = s - 512" by (rule mod_pos_pos_trivial) (use False s' in simp_all)
    finally have "a = s - 512" by (simp only: a_def)
    then show ?thesis using s' by simp
  qed
  then have "s \<in> set (if a < 256 then [a, a + 512] else [a])" by auto
  then have "s \<in> set (loop_from (tid (32, 16) t) 768 512)"
    using loop_from_two [OF a] by (simp only: tid)
  then show "s \<in> set slices" using t unfolding slices_def
    by (simp only: set_concat set_map) blast
qed

lemma phase_dct_slices: "phase_dct pass False False (32, 16) S = fold pass slices S"
  by (simp add: phase_dct_def slices_def fold_concat_map num_dct_slices_def total_blocks_FF
      block_size_def)

lemma fold_dct_row:
  assumes "distinct L"
  shows "fold (dct_row f) L S =
     (\<lambda>(b, r, c). if (\<exists>s\<in>set L. b = s div 8 \<and> r = s mod 8) \<and> 0 \<le> c \<and> c < 8
                   then f (\<lambda>k. S (b, r, k)) c else S (b, r, c))"
  using assms
proof (induction L arbitrary: S)
  case Nil
  then show ?case by (simp add: fun_eq_iff)
next
  case (Cons a L)
  let ?S' = "dct_row f a S"
  have other: "?S' (s div 8, s mod 8, k) = S (s div 8, s mod 8, k)" if "s \<noteq> a" for s k
  proof -
    have "\<not> (s div 8 = a div 8 \<and> s mod 8 = a mod 8)"
      using that by (metis div_mult_mod_eq)
    then show ?thesis by (auto simp add: dct_row_def Let_def and7 drop3)
  qed
  have IH: "fold (dct_row f) L ?S' =
     (\<lambda>(b, r, c). if (\<exists>s\<in>set L. b = s div 8 \<and> r = s mod 8) \<and> 0 \<le> c \<and> c < 8
                   then f (\<lambda>k. ?S' (b, r, k)) c else ?S' (b, r, c))"
    using Cons.prems by (intro Cons.IH) simp
  show ?case
  proof (rule ext)
    fix cell :: "int \<times> int \<times> int"
    obtain b r c where cell: "cell = (b, r, c)" by (cases cell)
    show "fold (dct_row f) (a # L) S cell =
      (case cell of (b, r, c) \<Rightarrow>
         if (\<exists>s\<in>set (a # L). b = s div 8 \<and> r = s mod 8) \<and> 0 \<le> c \<and> c < 8
         then f (\<lambda>k. S (b, r, k)) c else S (b, r, c))"
    proof (cases "\<exists>s\<in>set L. b = s div 8 \<and> r = s mod 8")
      case True
      then obtain s where s: "s \<in> set L" "b = s div 8" "r = s mod 8" by blast
      then have "s \<noteq> a" using Cons.prems by auto
      then have "(\<lambda>k. ?S' (b, r, k)) = (\<lambda>k. S (b, r, k))" "?S' (b, r, c) = S (b, r, c)"
        using other [of s] s by simp_all
      then show ?thesis using True by (simp add: IH cell)
    next
      case False
      then show ?thesis
        by (simp add: IH cell) (auto simp add: dct_row_def Let_def and7 drop3)
    qed
  qed
qed

lemma fold_dct_col:
  assumes "distinct L"
  shows "fold (dct_col f) L S =
     (\<lambda>(b, r, c). if (\<exists>s\<in>set L. b = s div 8 \<and> c = s mod 8) \<and> 0 \<le> r \<and> r < 8
                   then f (\<lambda>k. S (b, k, c)) r else S (b, r, c))"
  using assms
proof (induction L arbitrary: S)
  case Nil
  then show ?case by (simp add: fun_eq_iff)
next
  case (Cons a L)
  let ?S' = "dct_col f a S"
  have other: "?S' (s div 8, k, s mod 8) = S (s div 8, k, s mod 8)" if "s \<noteq> a" for s k
  proof -
    have "\<not> (s div 8 = a div 8 \<and> s mod 8 = a mod 8)"
      using that by (metis div_mult_mod_eq)
    then show ?thesis by (auto simp add: dct_col_def Let_def and7 drop3)
  qed
  have IH: "fold (dct_col f) L ?S' =
     (\<lambda>(b, r, c). if (\<exists>s\<in>set L. b = s div 8 \<and> c = s mod 8) \<and> 0 \<le> r \<and> r < 8
                   then f (\<lambda>k. ?S' (b, k, c)) r else ?S' (b, r, c))"
    using Cons.prems by (intro Cons.IH) simp
  show ?case
  proof (rule ext)
    fix cell :: "int \<times> int \<times> int"
    obtain b r c where cell: "cell = (b, r, c)" by (cases cell)
    show "fold (dct_col f) (a # L) S cell =
      (case cell of (b, r, c) \<Rightarrow>
         if (\<exists>s\<in>set (a # L). b = s div 8 \<and> c = s mod 8) \<and> 0 \<le> r \<and> r < 8
         then f (\<lambda>k. S (b, k, c)) r else S (b, r, c))"
    proof (cases "\<exists>s\<in>set L. b = s div 8 \<and> c = s mod 8")
      case True
      then obtain s where s: "s \<in> set L" "b = s div 8" "c = s mod 8" by blast
      then have "s \<noteq> a" using Cons.prems by auto
      then have "(\<lambda>k. ?S' (b, k, c)) = (\<lambda>k. S (b, k, c))" "?S' (b, r, c) = S (b, r, c)"
        using other [of s] s by simp_all
      then show ?thesis using True by (simp add: IH cell)
    next
      case False
      then show ?thesis
        by (simp add: IH cell) (auto simp add: dct_col_def Let_def and7 drop3)
    qed
  qed
qed

lemma slice_of_block:
  "(\<exists>s\<in>{0..<768::int}. b = s div 8 \<and> r = s mod 8) \<longleftrightarrow> 0 \<le> b \<and> b < 96 \<and> 0 \<le> r \<and> r < 8"
proof
  assume "\<exists>s\<in>{0..<768}. b = s div 8 \<and> r = s mod 8"
  then show "0 \<le> b \<and> b < 96 \<and> 0 \<le> r \<and> r < 8" by auto
next
  assume a: "0 \<le> b \<and> b < 96 \<and> 0 \<le> r \<and> r < 8"
  then have "b * 8 + r \<in> {0..<768}" "b = (b * 8 + r) div 8" "r = (b * 8 + r) mod 8" by simp_all
  then show "\<exists>s\<in>{0..<768}. b = s div 8 \<and> r = s mod 8" by blast
qed

lemma phase_dct_rows:
  assumes "0 \<le> b" "b < 96"
  shows "(\<lambda>r c. phase_dct (dct_row f) False False (32, 16) S (b, r, c))
         = block_rows f (\<lambda>r c. S (b, r, c))"
  using assms
  by (intro ext)
    (simp add: phase_dct_slices fold_dct_row [OF distinct_slices] set_slices slice_of_block
      block_rows_def)

lemma phase_dct_cols:
  assumes "0 \<le> b" "b < 96"
  shows "(\<lambda>r c. phase_dct (dct_col f) False False (32, 16) S (b, r, c))
         = block_cols f (\<lambda>r c. S (b, r, c))"
  using assms
  by (intro ext)
    (simp add: phase_dct_slices fold_dct_col [OF distinct_slices] set_slices slice_of_block
      block_cols_def)

lemma phase_transforms_blocks:
  assumes "0 \<le> b" "b < 96"
  shows "(\<lambda>r c. phase_transforms False False False dct sample (32, 16) S (b, r, c))
         = dct_round_trip dct (\<lambda>r c. S (b, r, c))"
  unfolding phase_transforms_def Let_def dct_round_trip_def
  by (simp only: if_False phase_dct_rows [OF assms] phase_dct_cols [OF assms])


section \<open>The load phase without subsampling\<close>

lemma fold_frame:
  assumes "\<And>x S. x \<in> set xs \<Longrightarrow> f x S c = S c"
  shows "fold f xs S c = S c"
  using assms by (induction xs arbitrary: S) simp_all

lemma fold_assign:
  assumes "\<And>x S. x \<in> set xs \<Longrightarrow> c \<notin> W x \<Longrightarrow> f x S c = S c"
    and "\<And>S. f x0 S c = v"
    and "x0 \<in> set xs" "c \<in> W x0" "distinct xs"
    and "\<And>x. x \<in> set xs \<Longrightarrow> c \<in> W x \<Longrightarrow> x = x0"
  shows "fold f xs S c = v"
proof -
  have "fold f xs S c = (if \<exists>x\<in>set xs. c \<in> W x then (\<lambda>_. v) (S c) else S c)"
  proof (rule fold_once)
    show "distinct xs" by (rule assms(5))
  next
    fix x S assume "x \<in> set xs" "c \<notin> W x"
    then show "f x S c = S c" by (rule assms(1))
  next
    fix x S assume "x \<in> set xs" "c \<in> W x"
    then have "x = x0" by (rule assms(6))
    then show "f x S c = v" by (simp add: assms(2))
  next
    fix x y assume "x \<in> set xs" "y \<in> set xs" "c \<in> W x" "c \<in> W y"
    then show "x = y" using assms(6) by blast
  qed
  then show ?thesis using assms(3,4) by auto
qed

lemma load_page_FF:
  "load_page False False rm inp blk_pos t page S =
     (let rgb = sampler_nn_clamp inp (group_offset False False blk_pos t page)
      in S(cb_cell t page := u8r (rgb_to_cb rm rgb) - 128,
           cr_cell False False t page := u8r (rgb_to_cr rm rgb) - 128,
           luma_cell False False t page 0 0 := u8r (rgb_to_y rm rgb) - 128))"
  by (simp add: load_page_def Let_def rgb_to_ycbcr_subsampled_def sub_positions_cases
      rgb_to_cb_cr_def u8_to_float_u8r fsub_u8r_128)

lemma cells_of_FF:
  "cells_of False False t page
     = {cb_cell t page, cr_cell False False t page, luma_cell False False t page 0 0}"
  by (auto simp add: cells_of_def sub_positions_cases)

lemma cells_FF_distinct:
  assumes "t \<in> set (threads (32, 16))" "page \<in> set (pages False False)"
  shows "cb_cell t page \<noteq> cr_cell False False t page"
    "luma_cell False False t page 0 0 \<noteq> cb_cell t page"
    "luma_cell False False t page 0 0 \<noteq> cr_cell False False t page"
proof -
  obtain tx ty where t: "t = (tx, ty)" by (cases t)
  have "0 \<le> fst t" "0 \<le> snd t" "0 \<le> page"
    using thread_range [OF assms(1) [unfolded t]] page_range [OF assms(2)] by (simp_all add: t)
  then show "cb_cell t page \<noteq> cr_cell False False t page"
    "luma_cell False False t page 0 0 \<noteq> cb_cell t page"
    "luma_cell False False t page 0 0 \<noteq> cr_cell False False t page"
    using cb_cr_cell_neq luma_cell_neq_chroma by simp_all
qed

lemma load_page_frame:
  assumes "c \<notin> cells_of False False t page"
  shows "load_page False False rm inp blk_pos t page S c = S c"
  using assms by (simp add: load_page_FF cells_of_FF Let_def)

lemma load_page_own:
  assumes "t \<in> set (threads (32, 16))" "page \<in> set (pages False False)"
  shows "load_page False False rm inp blk_pos t page S (cb_cell t page)
         = u8r (rgb_to_cb rm (sampler_nn_clamp inp (group_offset False False blk_pos t page))) - 128"
    and "load_page False False rm inp blk_pos t page S (cr_cell False False t page)
         = u8r (rgb_to_cr rm (sampler_nn_clamp inp (group_offset False False blk_pos t page))) - 128"
    and "load_page False False rm inp blk_pos t page S (luma_cell False False t page 0 0)
         = u8r (rgb_to_y rm (sampler_nn_clamp inp (group_offset False False blk_pos t page))) - 128"
  using cells_FF_distinct [OF assms] by (simp_all add: load_page_FF Let_def)

lemma phase_load_assign:
  assumes "t0 \<in> set (threads (32, 16))" "page0 \<in> set (pages False False)"
    and "c \<in> cells_of False False t0 page0"
    and "\<And>S. load_page False False rm inp blk_pos t0 page0 S c = v"
  shows "phase_load False False rm inp (32, 16) blk_pos S c = v"
proof -
  let ?W = "\<lambda>t. {c. \<exists>page\<in>set (pages False False). c \<in> cells_of False False t page}"
  let ?inner = "\<lambda>t S. fold (\<lambda>page S. load_page False False rm inp blk_pos t page S)
                        (pages False False) S"
  have frame: "?inner t S c = S c" if "c \<notin> ?W t" for t S
    using that by (intro fold_frame load_page_frame) blast
  have own: "?inner t0 S c = v" for S
  proof (rule fold_assign [where W = "cells_of False False t0" and ?x0.0 = page0])
    show "distinct (pages False False)" by (simp add: pages_def)
    show "page0 \<in> set (pages False False)" by (rule assms(2))
    show "c \<in> cells_of False False t0 page0" by (rule assms(3))
    show "load_page False False rm inp blk_pos t0 page0 S c = v" for S by (rule assms(4))
    show "load_page False False rm inp blk_pos t0 page S c = S c"
      if "c \<notin> cells_of False False t0 page" for page S
      using that by (rule load_page_frame)
    show "page = page0" if "page \<in> set (pages False False)" "c \<in> cells_of False False t0 page"
      for page
      using cells_of_inj [OF assms(1) that(1) assms(1,2) that(2) assms(3)] by simp
  qed
  have "fold ?inner (threads (32, 16)) S c = v"
  proof (rule fold_assign [where W = ?W and ?x0.0 = t0])
    show "distinct (threads (32, 16))" by (rule distinct_threads)
    show "t0 \<in> set (threads (32, 16))" by (rule assms(1))
    show "c \<in> ?W t0" using assms(2,3) by blast
    show "?inner t0 S c = v" for S by (rule own)
    show "?inner t S c = S c" if "c \<notin> ?W t" for t S using that by (rule frame)
    show "t = t0" if "t \<in> set (threads (32, 16))" "c \<in> ?W t" for t
      using cells_of_inj [OF that(1) _ assms(1,2) _ assms(3)] that(2) by blast
  qed
  then show ?thesis by (simp add: phase_load_def)
qed

lemma phase_load_own:
  assumes "t \<in> set (threads (32, 16))" "page \<in> set (pages False False)"
  shows "phase_load False False rm inp (32, 16) blk_pos S (cb_cell t page)
         = u8r (rgb_to_cb rm (sampler_nn_clamp inp (group_offset False False blk_pos t page))) - 128"
    and "phase_load False False rm inp (32, 16) blk_pos S (cr_cell False False t page)
         = u8r (rgb_to_cr rm (sampler_nn_clamp inp (group_offset False False blk_pos t page))) - 128"
    and "phase_load False False rm inp (32, 16) blk_pos S (luma_cell False False t page 0 0)
         = u8r (rgb_to_y rm (sampler_nn_clamp inp (group_offset False False blk_pos t page))) - 128"
  by (rule phase_load_assign [OF assms], simp add: cells_of_FF, rule load_page_own [OF assms])+

lemma phase_load_bytes:
  assumes "live_cell False False c"
  shows "\<exists>w. phase_load False False rm inp (32, 16) blk_pos S c = u8r w - 128"
proof -
  obtain t page where tp: "t \<in> set (threads (32, 16))" "page \<in> set (pages False False)"
    "c \<in> cells_of False False t page"
    using cells_of_cover [OF assms] by blast
  then have "c = cb_cell t page \<or> c = cr_cell False False t page
             \<or> c = luma_cell False False t page 0 0"
    by (simp add: cells_of_FF)
  then show ?thesis using phase_load_own [OF tp(1,2)] by metis
qed


section \<open>The round trip of a tile\<close>

lemma ConvertSat_restore:
  assumes "\<bar>e - (u8r w - 128)\<bar> \<le> 1 / 4"
  shows "ConvertSat rm (fadd e 128) = w"
proof -
  have b: "0 \<le> u8r w" "u8r w \<le> 255" by (rule u8r_bounds)+
  have c: "\<bar>(128::rat) - 128\<bar> \<le> 0" by simp
  have "\<bar>fadd e 128 - (u8r w - 128 + 128)\<bar> \<le> 1 / 4 + 0 + 1 / 65536"
    by (rule opA [OF assms c]) (use b in linarith)
  then have near: "\<bar>fadd e 128 - u8r w\<bar> \<le> 1 / 4 + 1 / 65536" by simp
  define n where "n = round_to_int rm (fadd e 128)"
  have "\<bar>rat_of_int n - fadd e 128\<bar> \<le> 1 / 2" unfolding n_def by (rule round_to_int_err)
  then have "\<bar>rat_of_int n - rat_of_int (uint w)\<bar> < 1" using near unfolding u8r_def by linarith
  then have "\<bar>rat_of_int (n - uint w)\<bar> < rat_of_int 1" by simp
  then have "\<bar>n - uint w\<bar> < 1" by (simp only: of_int_abs [symmetric] of_int_less_iff)
  then have n: "n = uint w" by simp
  have "0 \<le> uint w" "uint w \<le> 255" using uint_u8_bounds [of w] by simp_all
  then have "clamp (uint w) 0 255 = uint w" by (simp add: clamp_def)
  then show ?thesis by (simp add: ConvertSat_def n_def [symmetric] n)
qed

lemma identity_dct_cancels: "dct_cancels identity_dct"
proof -
  have "dct_round_trip identity_dct B = B" for B
    by (intro ext) (simp add: dct_round_trip_def identity_dct_def block_rows_def block_cols_def)
  then show ?thesis by (simp add: dct_cancels_def)
qed

lemma live_cell_FF:
  "live_cell False False (b, r, c) \<longleftrightarrow> 0 \<le> b \<and> b < 96 \<and> 0 \<le> r \<and> r < 8 \<and> 0 \<le> c \<and> c < 8"
  by (simp add: live_cell_def total_blocks_FF)

lemma round_trip_scratch:
  assumes "dct_cancels dct" "live_cell False False cell"
  shows "\<bar>phase_transforms False False False dct sample (32, 16)
            (phase_load False False rm inp (32, 16) blk_pos S) cell
          - phase_load False False rm inp (32, 16) blk_pos S cell\<bar> \<le> 1 / 4"
proof -
  obtain b r c where cell: "cell = (b, r, c)" by (cases cell)
  have l: "0 \<le> b" "b < 96" "r \<in> {0..<8}" "c \<in> {0..<8}"
    using assms(2) by (simp_all add: cell live_cell_FF)
  let ?S1 = "phase_load False False rm inp (32, 16) blk_pos S"
  let ?B = "\<lambda>r c. ?S1 (b, r, c)"
  have "byte_block ?B"
    unfolding byte_block_def
  proof (intro ballI)
    fix r' c' :: int assume "r' \<in> {0..<8}" "c' \<in> {0..<8}"
    then have "live_cell False False (b, r', c')" using l(1,2) by (simp add: live_cell_FF)
    then show "\<exists>w. ?S1 (b, r', c') = u8r w - 128" by (rule phase_load_bytes)
  qed
  then have "\<forall>r\<in>{0..<8}. \<forall>c\<in>{0..<8}. \<bar>dct_round_trip dct ?B r c - ?B r c\<bar> \<le> 1 / 4"
    using assms(1) unfolding dct_cancels_def by blast
  then have "\<bar>dct_round_trip dct ?B r c - ?B r c\<bar> \<le> 1 / 4" using l(3,4) by blast
  moreover have "phase_transforms False False False dct sample (32, 16) ?S1 (b, r, c)
      = dct_round_trip dct ?B r c"
    using fun_cong [OF fun_cong [OF phase_transforms_blocks [OF l(1,2), of dct sample ?S1]], of r c]
    by simp
  ultimately show ?thesis by (simp add: cell)
qed

lemma write_page_round_trip:
  assumes "dct_cancels dct" "t \<in> set (threads (32, 16))" "page \<in> set (pages False False)"
  shows "write_page False False rm sample blk_pos
           (phase_transforms False False False dct sample (32, 16)
              (phase_load False False rm inp (32, 16) blk_pos S)) t page out =
         (if fst (img_size sample) \<le> fst (group_offset False False blk_pos t page)
           \<or> snd (img_size sample) \<le> snd (group_offset False False blk_pos t page) then out
          else write_vec out (group_offset False False blk_pos t page)
                 (colour_round_trip rm
                    (sampler_nn_clamp inp (group_offset False False blk_pos t page))))"
proof -
  obtain tx ty where t: "t = (tx, ty)" by (cases t)
  let ?S1 = "phase_load False False rm inp (32, 16) blk_pos S"
  let ?S6 = "phase_transforms False False False dct sample (32, 16) ?S1"
  let ?q = "sampler_nn_clamp inp (group_offset False False blk_pos t page)"
  note live = cells_live_FF [OF assms(2) [unfolded t] assms(3), folded t]
  note own = phase_load_own [OF assms(2,3), of rm inp blk_pos S]
  have "ConvertSat rm (fadd (?S6 (cb_cell t page)) 128) = rgb_to_cb rm ?q"
    using round_trip_scratch [OF assms(1) live(1), of sample rm inp blk_pos S]
    by (intro ConvertSat_restore) (simp only: own)
  moreover have "ConvertSat rm (fadd (?S6 (cr_cell False False t page)) 128) = rgb_to_cr rm ?q"
    using round_trip_scratch [OF assms(1) live(2), of sample rm inp blk_pos S]
    by (intro ConvertSat_restore) (simp only: own)
  moreover have "ConvertSat rm (fadd (?S6 (luma_cell False False t page 0 0)) 128) = rgb_to_y rm ?q"
    using round_trip_scratch [OF assms(1) live(3), of sample rm inp blk_pos S]
    by (intro ConvertSat_restore) (simp only: own)
  ultimately show ?thesis
    by (simp add: write_page_def Let_def sub_positions_cases ycbcr_to_rgb_subsampled_def
        colour_round_trip_def)
qed

lemma sampler_in_bounds:
  assumes "in_bounds (in_surface sample) p"
  shows "sampler_nn_clamp (in_surface sample) p = surf_pixel (in_surface sample) p"
proof -
  obtain x y where p: "p = (x, y)" by (cases p)
  have "clamp x 0 (fst (img_size sample) - 1) = x" "clamp y 0 (snd (img_size sample) - 1) = y"
    using assms by (simp_all add: in_bounds_def in_surface_def clamp_def p)
  then show ?thesis
    by (simp add: sampler_nn_clamp_def surf_pixel_def surf_at_def Let_def in_surface_def p)
qed

lemma surfaces_in_bounds:
  "in_bounds (in_surface sample) p = in_bounds (out_surface sample) p"
  by (simp add: in_bounds_def in_surface_def out_surface_def)

lemma same_outside_packed:
  assumes "same_outside s0 s"
  shows "packed_layout s = packed_layout s0"
  using assms by (simp add: same_outside_def packed_layout_def)

lemma write_round_trip_pres:
  assumes "same_outside (out_surface sample) s" "packed_layout (out_surface sample)"
    and "in_bounds (out_surface sample) p"
    and "surf_pixel s p = colour_round_trip rm (surf_pixel (in_surface sample) p)"
  shows "surf_pixel (write_vec s off (colour_round_trip rm (sampler_nn_clamp (in_surface sample) off))) p
         = colour_round_trip rm (surf_pixel (in_surface sample) p)"
proof (cases "off = p")
  case True
  have "in_bounds s p" using assms(1,3) same_outside_geom(1) by simp
  then have "surf_pixel (write_vec s p (colour_round_trip rm (sampler_nn_clamp (in_surface sample) p))) p
      = colour_round_trip rm (sampler_nn_clamp (in_surface sample) p)"
    by (rule write_vec_pixel_same)
  moreover have "sampler_nn_clamp (in_surface sample) p = surf_pixel (in_surface sample) p"
    using assms(3) by (intro sampler_in_bounds) (simp add: surfaces_in_bounds)
  ultimately show ?thesis using True by simp
next
  case False
  have "in_bounds s p" "packed_layout s"
    using assms(1,2,3) same_outside_geom(1) same_outside_packed by simp_all
  then have "surf_pixel (write_vec s off (colour_round_trip rm (sampler_nn_clamp (in_surface sample) off))) p
      = surf_pixel s p"
    using False by (intro write_vec_pixel_other) simp_all
  then show ?thesis using assms(4) by simp
qed

lemma write_round_trip_est:
  assumes "same_outside (out_surface sample) s" "in_bounds (out_surface sample) p"
  shows "surf_pixel (write_vec s p (colour_round_trip rm (sampler_nn_clamp (in_surface sample) p))) p
         = colour_round_trip rm (surf_pixel (in_surface sample) p)"
proof -
  have "in_bounds s p" using assms same_outside_geom(1) by simp
  then have "surf_pixel (write_vec s p (colour_round_trip rm (sampler_nn_clamp (in_surface sample) p))) p
      = colour_round_trip rm (sampler_nn_clamp (in_surface sample) p)"
    by (rule write_vec_pixel_same)
  moreover have "sampler_nn_clamp (in_surface sample) p = surf_pixel (in_surface sample) p"
    using assms(2) by (intro sampler_in_bounds) (simp add: surfaces_in_bounds)
  ultimately show ?thesis by simp
qed

lemma group_offset_FF_gen:
  "group_offset False False (bx, by) (tx, ty) page = (bx + tx, by + ty + page * 16)"
  by (simp add: group_offset_def vert_chroma_blocks_def)

lemma tile_round_trip:
  assumes "dct_cancels dct" "packed_layout (out_surface sample)"
    and "in_bounds (out_surface sample) (x, y)"
    and "same_outside (out_surface sample) (snd st)"
  shows "surf_pixel (snd st) (x, y) = colour_round_trip rm (surf_pixel (in_surface sample) (x, y))
         \<or> (bx \<le> x \<and> x < bx + 32 \<and> by \<le> y \<and> y < by + 64) \<Longrightarrow>
         surf_pixel (snd (tile_iteration False False False rm dct sample (in_surface sample)
                            (32, 16) (bx, by) st)) (x, y)
         = colour_round_trip rm (surf_pixel (in_surface sample) (x, y))"
proof -
  let ?s0 = "out_surface sample"
  let ?inp = "in_surface sample"
  let ?S6 = "phase_transforms False False False dct sample (32, 16)
               (phase_load False False rm ?inp (32, 16) (bx, by) (fst st))"
  let ?I = "same_outside ?s0"
  let ?P = "\<lambda>s. surf_pixel s (x, y) = colour_round_trip rm (surf_pixel ?inp (x, y))"
  let ?wp = "\<lambda>t page out. write_page False False rm sample (bx, by) ?S6 t page out"
  let ?step = "\<lambda>t out. fold (?wp t) (pages False False) out"
  assume a: "?P (snd st) \<or> (bx \<le> x \<and> x < bx + 32 \<and> by \<le> y \<and> y < by + 64)"
  have size: "0 \<le> x" "x < fst (img_size sample)" "0 \<le> y" "y < snd (img_size sample)"
    using assms(3) by (simp_all add: in_bounds_def out_surface_def)
  have I_wp: "?I (?wp t page s)" if "?I s" for t page s
    using that by (rule write_page_same_outside)
  have P_wp: "?P (?wp t page s)"
    if "t \<in> set (threads (32, 16))" "page \<in> set (pages False False)" "?I s" "?P s" for t page s
    unfolding write_page_round_trip [OF assms(1) that(1,2)]
    using write_round_trip_pres [OF that(3) assms(2,3) that(4)] that(4) by simp
  have I_step: "?I (?step t s)" if "?I s" for t s
    using that by (intro fold_same_outside I_wp)
  have P_step: "?P (?step t s)" if "t \<in> set (threads (32, 16))" "?I s" "?P s" for t s
    using fold_pres_mem [of "pages False False" ?I "?wp t" ?P s] I_wp P_wp that by blast
  have pres: "?P (fold ?step (threads (32, 16)) s)" if "?I s" "?P s" for s
    using fold_pres_mem [of "threads (32, 16)" ?I ?step ?P s] I_step P_step that by blast
  have est: "?P (fold ?step (threads (32, 16)) s)"
    if "?I s" "bx \<le> x" "x < bx + 32" "by \<le> y" "y < by + 64" for s
  proof -
    define tx ty page where "tx = x - bx" and "ty = (y - by) mod 16" and "page = (y - by) div 16"
    have r: "0 \<le> tx" "tx < 32" "0 \<le> ty" "ty < 16" "0 \<le> page" "page < 4"
      using that(2-5) by (simp_all add: tx_def ty_def page_def)
    have t0: "(tx, ty) \<in> set (threads (32, 16))" using r by (simp add: set_threads)
    have p0: "page \<in> set (pages False False)" using r by (simp add: set_pages total_blocks_FF)
    have "ty + page * 16 = y - by" by (simp add: ty_def page_def)
    then have off: "group_offset False False (bx, by) (tx, ty) page = (x, y)"
      by (simp add: group_offset_FF_gen tx_def)
    have est_wp: "?P (?wp (tx, ty) page s)" if "?I s" for s
      unfolding write_page_round_trip [OF assms(1) t0 p0] off
      using write_round_trip_est [OF that assms(3)] size by simp
    have est_step: "?P (?step (tx, ty) s)" if "?I s" for s
      using fold_establish [of "pages False False" ?I "?wp (tx, ty)" ?P page s]
        I_wp P_wp [OF t0] est_wp p0 that by blast
    show ?thesis
      using fold_establish [of "threads (32, 16)" ?I ?step ?P "(tx, ty)" s]
        I_step P_step est_step t0 that(1) by blast
  qed
  have "?P (fold ?step (threads (32, 16)) (snd st))"
    using a pres [OF assms(4)] est [OF assms(4)] by blast
  then show ?thesis by (simp add: tile_iteration_def Let_def phase_write_def)
qed


section \<open>The round trip of the kernel\<close>

lemma loop_from_covers:
  "a \<le> x \<Longrightarrow> x < b \<Longrightarrow> 0 < d \<Longrightarrow> \<exists>v\<in>set (loop_from a b d). v \<le> x \<and> x < v + d"
proof (induction a b d rule: loop_from.induct)
  case (1 first bound step)
  have c: "first < bound \<and> 0 < step" using "1.prems" by linarith
  have u: "loop_from first bound step = first # loop_from (first + step) bound step"
    using c by (subst loop_from.simps) (simp del: loop_from.simps)
  show ?case
  proof (cases "x < first + step")
    case True
    then show ?thesis using "1.prems"(1) by (simp add: u del: loop_from.simps)
  next
    case False
    then have "\<exists>v\<in>set (loop_from (first + step) bound step). v \<le> x \<and> x < v + step"
      using "1.prems" c by (intro "1.IH") simp_all
    then show ?thesis by (auto simp add: u simp del: loop_from.simps)
  qed
qed

lemma and_not_mask3: "(x::int) AND NOT (mask 3) = push_bit 3 (drop_bit 3 x)"
  by (rule bit_eqI)
    (auto simp add: bit_and_iff bit_not_iff bit_mask_iff bit_push_bit_iff bit_drop_bit_eq)

lemma and_minus8: "(x::int) AND (- 8) = 8 * (x div 8)"
proof -
  have "(- 8 :: int) = NOT (mask 3)" by (simp add: mask_eq_exp_minus_1 not_int_def)
  then have "x AND (- 8) = x AND NOT (mask 3)" by simp
  also have "\<dots> = push_bit 3 (drop_bit 3 x)" by (rule and_not_mask3)
  finally show ?thesis by (simp add: push_bit_eq_mult drop_bit_eq_div)
qed

lemma aligned_region:
  "(a::int) AND (- 8) \<le> a" "b \<le> align_up b 8"
proof -
  have "8 * (a div 8) + a mod 8 = a" by simp
  moreover have "0 \<le> a mod 8" by simp
  ultimately have "8 * (a div 8) \<le> a" by linarith
  then show "a AND (- 8) \<le> a" by (simp only: and_minus8)
  have "(b + 7) div 8 * 8 + (b + 7) mod 8 = b + 7" by (rule div_mult_mod_eq)
  moreover have "(b + 7) mod 8 < 8" by simp
  ultimately have "b \<le> (b + 7) div 8 * 8" by linarith
  then show "b \<le> align_up b 8" by (simp add: align_up_def)
qed

lemma kernel_restores_pixel:
  assumes "dct_cancels dct" "packed_layout (out_surface sample)"
    and "in_bounds (out_surface sample) (x, y)"
    and "fst (blk_start block) \<le> x" "x < fst (blk_end block)"
    and "snd (blk_start block) \<le> y" "y < snd (blk_end block)"
  shows "surf_pixel (snd (JpegCompressionDistortion False False False rm dct (32, 16)
                            sample block flat_blocks)) (x, y)
         = colour_round_trip rm (surf_pixel (in_surface sample) (x, y))"
proof -
  let ?s0 = "out_surface sample"
  let ?I = "\<lambda>st :: scratch \<times> Surface2D. same_outside ?s0 (snd st)"
  let ?P = "\<lambda>st :: scratch \<times> Surface2D.
              surf_pixel (snd st) (x, y) = colour_round_trip rm (surf_pixel (in_surface sample) (x, y))"
  let ?tile = "\<lambda>by bx st. tile_iteration False False False rm dct sample (in_surface sample)
                            (32, 16) (bx, by) st"
  define xs where "xs = loop_from (fst (blk_start block) AND (- 8)) (align_up (fst (blk_end block)) 8) 32"
  define ys where "ys = loop_from (snd (blk_start block) AND (- 8)) (align_up (snd (blk_end block)) 8) 64"
  let ?row = "\<lambda>by st. fold (?tile by) xs st"
  have ax: "fst (blk_start block) AND (- 8) \<le> x" "x < align_up (fst (blk_end block)) 8"
    using aligned_region(1) [of "fst (blk_start block)"] aligned_region(2) [of "fst (blk_end block)"]
      assms(4,5) by linarith+
  have ay: "snd (blk_start block) AND (- 8) \<le> y" "y < align_up (snd (blk_end block)) 8"
    using aligned_region(1) [of "snd (blk_start block)"] aligned_region(2) [of "snd (blk_end block)"]
      assms(6,7) by linarith+
  obtain bx where bx: "bx \<in> set xs" "bx \<le> x" "x < bx + 32"
    using loop_from_covers [OF ax zero_less_numeral] unfolding xs_def by blast
  obtain cy where cy: "cy \<in> set ys" "cy \<le> y" "y < cy + 64"
    using loop_from_covers [OF ay zero_less_numeral] unfolding ys_def by blast
  have I_tile: "?I (?tile b a st)" if "?I st" for a b st
    using that by (rule tile_iteration_same_outside)
  have P_tile: "?P (?tile b a st)" if "?I st" "?P st" for a b st
    using tile_round_trip [OF assms(1,2,3) that(1), of rm a b] that(2) by blast
  have est_tile: "?P (?tile cy bx st)" if "?I st" for st
    using tile_round_trip [OF assms(1,2,3) that, of rm bx cy] bx(2,3) cy(2,3) by blast
  have I_row: "?I (?row b st)" if "?I st" for b st
    using fold_pres_mem [of xs ?I "?tile b" "\<lambda>_. True" st] I_tile that by blast
  have P_row: "?P (?row b st)" if "?I st" "?P st" for b st
    using fold_pres_mem [of xs ?I "?tile b" ?P st] I_tile P_tile that by blast
  have est_row: "?P (?row cy st)" if "?I st" for st
    using fold_establish [of xs ?I "?tile cy" ?P bx st] I_tile P_tile est_tile bx(1) that by blast
  have "?I (flat_blocks, ?s0)" by (simp add: same_outside_refl)
  then have "?P (fold ?row ys (flat_blocks, ?s0))"
    using fold_establish [of ys ?I ?row ?P cy "(flat_blocks, ?s0)"] I_row P_row est_row cy(1)
    by blast
  moreover have "JpegCompressionDistortion False False False rm dct (32, 16) sample block flat_blocks
      = fold ?row ys (flat_blocks, ?s0)"
    by (simp add: JpegCompressionDistortion_def Let_def xs_def ys_def total_blocks_FF
        vert_chroma_blocks_def del: loop_from.simps)
  ultimately show ?thesis by simp
qed

text \<open>
  Claim C3. With quantization disabled and both subsampling flags false, run by a CUDA
  block of 32x16 threads on a packed output buffer, the kernel leaves in every pixel of
  its block's rectangle that lies inside the image a value that differs from the input
  pixel by at most one level in every channel, whatever the input and the content of the
  shared array and of the output buffer before. The absent 1-D transforms enter by their
  contract that the four passes bring a block of level-shifted 8-bit values back to
  within a quarter of a level; then the level shift and the saturating conversion
  restore the Y, Cb and Cr values exactly, and the pixel written is the input pixel
  converted to YCbCr and back. The block's coordinates are non-negative and at most
  \<open>2 ^ 30\<close>, so that the 32-bit coordinate arithmetic of the kernel does not overflow.
\<close>

theorem kernel_round_trip:
  assumes "dct_cancels dct" "packed_layout (out_surface sample)"
    and "in_bounds (out_surface sample) (x, y)"
    and "fst (blk_start block) \<le> x" "x < fst (blk_end block)"
    and "snd (blk_start block) \<le> y" "y < snd (blk_end block)"
    and "0 \<le> fst (blk_start block)" "0 \<le> snd (blk_start block)"
    and "fst (blk_end block) \<le> 1073741824" "snd (blk_end block) \<le> 1073741824"
  shows "within1
           (surf_pixel (snd (JpegCompressionDistortion False False False rm dct (32, 16)
                               sample block flat_blocks)) (x, y))
           (surf_pixel (in_surface sample) (x, y))
       \<and> surf_pixel (snd (JpegCompressionDistortion False False False rm dct (32, 16)
                             sample block flat_blocks)) (x, y)
           = colour_round_trip rm (surf_pixel (in_surface sample) (x, y))"
  unfolding kernel_restores_pixel [OF assms(1-7)]
  using colour_round_trip_within1 [of rm "surf_pixel (in_surface sample) (x, y)"] by simp

theorem kernel_round_trip_witness:
  "within1
     (surf_pixel (snd (JpegCompressionDistortion False False False HalfEven identity_dct (32, 16)
                         example_gradient example_block (\<lambda>_. 0))) (5, 7))
     (surf_pixel (in_surface example_gradient) (5, 7))
   \<and> surf_pixel (snd (JpegCompressionDistortion False False False HalfEven identity_dct (32, 16)
                         example_gradient example_block (\<lambda>_. 0))) (5, 7)
       = colour_round_trip HalfEven (surf_pixel (in_surface example_gradient) (5, 7))"
  by (rule kernel_round_trip)
    (simp_all add: identity_dct_cancels packed_layout_def in_bounds_def out_surface_def
      example_gradient_def SampleDesc_default_def example_block_def)

end
